theory Spec2Isabelle
  imports Main "HOL-Library.Word"
begin

unbundle bit_operations_syntax

section \<open>Wire record (vault\_protocol.h)\<close>

type_synonym u8 = "8 word"
type_synonym u32 = "32 word"

definition VAULT_PROTO_HEAD :: u8 where
  "VAULT_PROTO_HEAD = 0xAA"

definition VAULT_PROTO_PACKET_SIZE :: nat where
  "VAULT_PROTO_PACKET_SIZE = 13"

definition VAULT_CMD_CONFIG :: u8 where
  "VAULT_CMD_CONFIG = 0x01"

definition VAULT_CMD_EVENT :: u8 where
  "VAULT_CMD_EVENT = 0x02"

definition VAULT_CMD_HEARTBEAT :: u8 where
  "VAULT_CMD_HEARTBEAT = 0x03"

definition VAULT_CMD_REPLAY :: u8 where
  "VAULT_CMD_REPLAY = 0x04"

definition VAULT_FLAG_IS_REPLAY :: u8 where
  "VAULT_FLAG_IS_REPLAY = push_bit 0 1"

definition VAULT_FLAG_INPUT_STATE :: u8 where
  "VAULT_FLAG_INPUT_STATE = push_bit 1 1"

text \<open>
  The packed struct \<open>vault_packet_t\<close>: seven fields, thirteen bytes, no padding.
\<close>

record vault_packet_t =
  head :: u8
  cmd :: u8
  seq :: u32
  pin :: u8
  flags :: u8
  val :: u32
  crc :: u8

subsection \<open>Object representation\<close>

text \<open>
  The target is a little-endian 32-bit core, so the four bytes of a \<open>uint32_t\<close> field
  lie in memory least significant byte first.
\<close>

definition le32 :: "u32 \<Rightarrow> u8 list" where
  "le32 w = [ucast w, ucast (drop_bit 8 w), ucast (drop_bit 16 w), ucast (drop_bit 24 w)]"

definition le32_read :: "u8 \<Rightarrow> u8 \<Rightarrow> u8 \<Rightarrow> u8 \<Rightarrow> u32" where
  "le32_read b0 b1 b2 b3 =
     ucast b0 OR push_bit 8 (ucast b1) OR push_bit 16 (ucast b2) OR push_bit 24 (ucast b3)"

text \<open>The thirteen bytes that \<open>memcpy\<close> moves for one packet, offsets 0 to 12.\<close>

definition packet_bytes :: "vault_packet_t \<Rightarrow> u8 list" where
  "packet_bytes p = [head p, cmd p] @ le32 (seq p) @ [pin p, flags p] @ le32 (val p) @ [crc p]"

text \<open>
  Memory is byte addressed; an address is an offset from the start of the region it
  belongs to. \<open>memcpy\<close> writes the bytes one after the other from the destination offset.
\<close>

fun memcpy :: "(nat \<Rightarrow> u8) \<Rightarrow> nat \<Rightarrow> u8 list \<Rightarrow> (nat \<Rightarrow> u8)" where
  "memcpy m a [] = m"
| "memcpy m a (b # bs) = memcpy (m(a := b)) (a + 1) bs"

text \<open>Reading a \<open>vault_packet_t\<close> through a pointer to offset \<open>a\<close>.\<close>

definition load_packet :: "(nat \<Rightarrow> u8) \<Rightarrow> nat \<Rightarrow> vault_packet_t" where
  "load_packet m a =
     \<lparr> head = m a, cmd = m (a + 1),
       seq = le32_read (m (a + 2)) (m (a + 3)) (m (a + 4)) (m (a + 5)),
       pin = m (a + 6), flags = m (a + 7),
       val = le32_read (m (a + 8)) (m (a + 9)) (m (a + 10)) (m (a + 11)),
       crc = m (a + 12) \<rparr>"

subsection \<open>Checksum\<close>

text \<open>
  \<open>vault_protocol_calc_crc8\<close> as CONTRIBUTING.md gives it: the running value starts at
  zero and each byte is folded in through the lookup table. The 256 entries of
  \<open>crc8_table\<close> are not part of the available sources, so the table is a parameter.
\<close>

definition vault_protocol_calc_crc8 :: "(u8 \<Rightarrow> u8) \<Rightarrow> u8 list \<Rightarrow> u8" where
  "vault_protocol_calc_crc8 crc8_table data = foldl (\<lambda>c b. crc8_table (c XOR b)) 0 data"

subsection \<open>Codec operations\<close>

text \<open>
  Modelled from the spec: \<open>vault_protocol_init_packet\<close> (vault\_protocol.c is not among
  the sources). It sets sentinel, command and sequence and zeroes channel, flags and
  value; the checksum is left unset, written here as zero.
\<close>

definition vault_protocol_init_packet :: "u8 \<Rightarrow> u32 \<Rightarrow> vault_packet_t" where
  "vault_protocol_init_packet c s =
     \<lparr> head = VAULT_PROTO_HEAD, cmd = c, seq = s, pin = 0, flags = 0, val = 0, crc = 0 \<rparr>"

text \<open>
  Modelled from the spec: \<open>vault_protocol_serialize\<close> (vault\_protocol.c is not among the
  sources). Thirteen bytes in the fixed little-endian layout of the field table.
\<close>

definition vault_protocol_serialize :: "vault_packet_t \<Rightarrow> u8 list" where
  "vault_protocol_serialize p =
     [head p, cmd p,
      ucast (seq p), ucast (drop_bit 8 (seq p)), ucast (drop_bit 16 (seq p)),
      ucast (drop_bit 24 (seq p)),
      pin p, flags p,
      ucast (val p), ucast (drop_bit 8 (val p)), ucast (drop_bit 16 (val p)),
      ucast (drop_bit 24 (val p)),
      crc p]"

text \<open>
  Modelled from the spec: \<open>vault_protocol_finalize_packet\<close> (vault\_protocol.c is not
  among the sources). The checksum over bytes 0 to 11 is written into byte 12.
\<close>

definition vault_protocol_finalize_packet :: "(u8 \<Rightarrow> u8) \<Rightarrow> vault_packet_t \<Rightarrow> vault_packet_t" where
  "vault_protocol_finalize_packet crc8_table p =
     p\<lparr>crc := vault_protocol_calc_crc8 crc8_table (take 12 (vault_protocol_serialize p))\<rparr>"

text \<open>
  Modelled from the spec: \<open>vault_protocol_validate_packet\<close> (vault\_protocol.c is not
  among the sources). It fails fast on a sentinel mismatch, otherwise recomputes the
  checksum and compares.
\<close>

definition vault_protocol_validate_packet :: "(u8 \<Rightarrow> u8) \<Rightarrow> vault_packet_t \<Rightarrow> bool" where
  "vault_protocol_validate_packet crc8_table p =
     (if head p \<noteq> VAULT_PROTO_HEAD then False
      else vault_protocol_calc_crc8 crc8_table (take 12 (vault_protocol_serialize p)) = crc p)"

datatype codec_error = MalformedInput | BadSentinel | ChecksumMismatch

text \<open>
  Modelled from the spec: \<open>vault_protocol_parse\<close> (vault\_protocol.c is not among the
  sources). Wrong length, wrong sentinel and wrong checksum are the three errors, tested
  in that order.
\<close>

definition vault_protocol_parse :: "(u8 \<Rightarrow> u8) \<Rightarrow> u8 list \<Rightarrow> codec_error + vault_packet_t" where
  "vault_protocol_parse crc8_table data =
     (if length data \<noteq> VAULT_PROTO_PACKET_SIZE then Inl MalformedInput
      else if data ! 0 \<noteq> VAULT_PROTO_HEAD then Inl BadSentinel
      else if vault_protocol_calc_crc8 crc8_table (take 12 data) \<noteq> data ! 12
        then Inl ChecksumMismatch
      else Inr \<lparr> head = data ! 0, cmd = data ! 1,
                 seq = le32_read (data ! 2) (data ! 3) (data ! 4) (data ! 5),
                 pin = data ! 6, flags = data ! 7,
                 val = le32_read (data ! 8) (data ! 9) (data ! 10) (data ! 11),
                 crc = data ! 12 \<rparr>)"

section \<open>Memory manager (vault\_memory.h, vault\_memory.c)\<close>

definition VAULT_HISTORY_BUFFER_SIZE :: u32 where
  "VAULT_HISTORY_BUFFER_SIZE = 2 * 1024 * 1024"

text \<open>
  The history functions below take the size of the backing region as their first
  argument \<open>bsz\<close>; the firmware is built with \<open>bsz = VAULT_HISTORY_BUFFER_SIZE\<close>.
  \<open>sizeof(vault_packet_t)\<close> is 13.
\<close>

definition VAULT_HISTORY_MAX_ENTRIES :: "u32 \<Rightarrow> u32" where
  "VAULT_HISTORY_MAX_ENTRIES bsz = bsz div 13"

definition VAULT_SEQ_SYNC_INTERVAL :: u32 where
  "VAULT_SEQ_SYNC_INTERVAL = 10"

text \<open>
  The handle \<open>vault_memory_t\<close>. \<open>history_buffer\<close> is the content of the region the
  pointer refers to, addressed by byte offset from its start; the region proper is the
  offsets below \<open>bsz\<close>. The ring buffer handle \<open>network_queue\<close> plays no part in the
  functions modelled here and is left out. A pointer to a handle is an \<open>option\<close>,
  \<open>None\<close> for \<open>NULL\<close>.
\<close>

record vault_memory_t =
  history_buffer :: "nat \<Rightarrow> u8"
  history_write_pos :: u32
  history_count :: u32
  seq_counter :: u32
  seq_last_synced :: u32
  initialized :: bool

subsection \<open>Sequence counter\<close>

text \<open>
  The durable store is outside the program. Its content is the list of values committed
  under the key \<open>seq_counter\<close>, oldest first; what the three calls \<open>nvs_open\<close>,
  \<open>nvs_set_u32\<close> and \<open>nvs_commit\<close> answer on one synchronisation is an input.
\<close>

datatype nvs_outcome = NVS_OK | NVS_OPEN_FAILS | NVS_SET_FAILS | NVS_COMMIT_FAILS

definition vault_memory_sync_seq_to_nvs ::
  "nvs_outcome \<Rightarrow> vault_memory_t option \<Rightarrow> u32 list \<Rightarrow> bool \<times> vault_memory_t option \<times> u32 list" where
  "vault_memory_sync_seq_to_nvs out mem nvs =
     (case mem of
        None \<Rightarrow> (False, mem, nvs)
      | Some m \<Rightarrow>
          if \<not> initialized m then (False, mem, nvs)
          else (case out of
                  NVS_OPEN_FAILS \<Rightarrow> (False, mem, nvs)
                | NVS_SET_FAILS \<Rightarrow> (False, mem, nvs)
                | NVS_COMMIT_FAILS \<Rightarrow> (False, mem, nvs)
                | NVS_OK \<Rightarrow>
                    (True, Some (m\<lparr>seq_last_synced := seq_counter m\<rparr>),
                     nvs @ [seq_counter m])))"

definition vault_memory_get_next_seq ::
  "nvs_outcome \<Rightarrow> vault_memory_t option \<Rightarrow> u32 list \<Rightarrow> u32 \<times> vault_memory_t option \<times> u32 list" where
  "vault_memory_get_next_seq out mem nvs =
     (case mem of
        None \<Rightarrow> (0, mem, nvs)
      | Some m \<Rightarrow>
          if \<not> initialized m then (0, mem, nvs)
          else
            let s = seq_counter m;
                m1 = m\<lparr>seq_counter := seq_counter m + 1\<rparr>
            in if s - seq_last_synced m1 \<ge> VAULT_SEQ_SYNC_INTERVAL
               then (case vault_memory_sync_seq_to_nvs out (Some m1) nvs of
                       (_, mem', nvs') \<Rightarrow> (s, mem', nvs'))
               else (s, Some m1, nvs))"

text \<open>
  \<open>nvs\_get\_u32\<close> answers the value committed last, or fails when there is none;
  whether \<open>nvs_open\<close> succeeds is an input.
\<close>

definition vault_memory_load_seq_from_nvs ::
  "bool \<Rightarrow> vault_memory_t option \<Rightarrow> u32 list \<Rightarrow> bool \<times> vault_memory_t option" where
  "vault_memory_load_seq_from_nvs open_ok mem nvs =
     (case mem of
        None \<Rightarrow> (False, mem)
      | Some m \<Rightarrow>
          if \<not> open_ok then (False, mem)
          else if nvs = [] then (False, mem)
          else (True, Some (m\<lparr>seq_counter := last nvs\<rparr>)))"

text \<open>
  \<open>vault_memory_init\<close>. Whether the allocations succeed is an input, and so is the
  content of the fresh history region, which is not cleared. The handle itself is zeroed
  before use.
\<close>

definition vault_memory_init ::
  "bool \<Rightarrow> (nat \<Rightarrow> u8) \<Rightarrow> bool \<Rightarrow> u32 list \<Rightarrow> vault_memory_t option" where
  "vault_memory_init allocs_ok region open_ok nvs =
     (if \<not> allocs_ok then None
      else
        let m0 = \<lparr> history_buffer = region, history_write_pos = 0, history_count = 0,
                   seq_counter = 0, seq_last_synced = 0, initialized = False \<rparr>
        in (case vault_memory_load_seq_from_nvs open_ok (Some m0) nvs of
              (loaded, mem1) \<Rightarrow>
                (case (if \<not> loaded then map_option (\<lambda>m. m\<lparr>seq_counter := 0\<rparr>) mem1 else mem1) of
                   None \<Rightarrow> None
                 | Some m2 \<Rightarrow>
                     Some (m2\<lparr>seq_last_synced := seq_counter m2, initialized := True\<rparr>))))"

text \<open>
  Successive calls on one handle: each call takes the next answer of the durable store
  and hands the handle and the store on. The result lists the values returned, in call
  order.
\<close>

fun next_seq_calls ::
  "nvs_outcome list \<Rightarrow> vault_memory_t option \<Rightarrow> u32 list \<Rightarrow> u32 list \<times> vault_memory_t option \<times> u32 list" where
  "next_seq_calls [] mem nvs = ([], mem, nvs)"
| "next_seq_calls (out # outs) mem nvs =
     (case vault_memory_get_next_seq out mem nvs of
        (s, mem', nvs') \<Rightarrow>
          (case next_seq_calls outs mem' nvs' of
             (ss, mem'', nvs'') \<Rightarrow> (s # ss, mem'', nvs'')))"

subsection \<open>History buffer\<close>

text \<open>
  \<open>vault_memory_store_history\<close>. The copy is not checked against the size of the region:
  when \<open>offset + 13\<close> exceeds \<open>bsz\<close>, the bytes that do not fit go to the offsets that
  follow the region, and the map records them there.
\<close>

definition vault_memory_store_history ::
  "u32 \<Rightarrow> vault_memory_t option \<Rightarrow> vault_packet_t option \<Rightarrow> bool \<times> vault_memory_t option" where
  "vault_memory_store_history bsz mem packet =
     (case mem of
        None \<Rightarrow> (False, mem)
      | Some m \<Rightarrow>
          (case packet of
             None \<Rightarrow> (False, mem)
           | Some p \<Rightarrow>
               if \<not> initialized m then (False, mem)
               else
                 let offset = (history_write_pos m * 13) mod bsz;
                     m1 = m\<lparr>history_buffer :=
                              memcpy (history_buffer m) (unat offset) (packet_bytes p)\<rparr>;
                     m2 = m1\<lparr>history_write_pos := history_write_pos m1 + 1\<rparr>;
                     m3 = (if history_count m2 < VAULT_HISTORY_MAX_ENTRIES bsz
                           then m2\<lparr>history_count := history_count m2 + 1\<rparr> else m2)
                 in (True, Some m3)))"

definition search_count_of :: "u32 \<Rightarrow> vault_memory_t \<Rightarrow> u32" where
  "search_count_of bsz m =
     (if history_count m < VAULT_HISTORY_MAX_ENTRIES bsz then history_count m
      else VAULT_HISTORY_MAX_ENTRIES bsz)"

text \<open>The slot the loops of \<open>find_by_seq\<close> and \<open>get_range\<close> read at index \<open>i\<close>.\<close>

definition stored_at :: "u32 \<Rightarrow> vault_memory_t \<Rightarrow> u32 \<Rightarrow> u32 \<Rightarrow> vault_packet_t" where
  "stored_at bsz m search_count i =
     (let pos = (history_write_pos m - search_count + i) mod VAULT_HISTORY_MAX_ENTRIES bsz;
          offset = pos * 13
      in load_packet (history_buffer m) (unat offset))"

function find_by_seq_loop ::
  "u32 \<Rightarrow> vault_memory_t \<Rightarrow> u32 \<Rightarrow> u32 \<Rightarrow> u32 \<Rightarrow> vault_packet_t option" where
  "find_by_seq_loop bsz m s search_count i =
     (if i < search_count
      then (if seq (stored_at bsz m search_count i) = s
            then Some (stored_at bsz m search_count i)
            else find_by_seq_loop bsz m s search_count (i + 1))
      else None)"
  by pat_completeness auto
termination
  by (relation "measure (\<lambda>(bsz, m, s, search_count, i). unat search_count - unat i)")
     (simp, unat_arith)

declare find_by_seq_loop.simps [simp del]

text \<open>The caller's output packet is returned beside the result; it is written on success only.\<close>

definition vault_memory_find_by_seq ::
  "u32 \<Rightarrow> vault_memory_t option \<Rightarrow> u32 \<Rightarrow> vault_packet_t option \<Rightarrow> bool \<times> vault_packet_t option" where
  "vault_memory_find_by_seq bsz mem s packet =
     (case mem of
        None \<Rightarrow> (False, packet)
      | Some m \<Rightarrow>
          if \<not> initialized m \<or> packet = None then (False, packet)
          else (case find_by_seq_loop bsz m s (search_count_of bsz m) 0 of
                  Some stored \<Rightarrow> (True, Some stored)
                | None \<Rightarrow> (False, packet)))"

text \<open>
  The caller's array \<open>packets\<close> is a map from index to element; the loop writes the
  element at index \<open>found\<close> and counts on.
\<close>

function get_range_loop ::
  "u32 \<Rightarrow> vault_memory_t \<Rightarrow> u32 \<Rightarrow> u32 \<Rightarrow> u32 \<Rightarrow> u32 \<Rightarrow> u32 \<Rightarrow>
   (nat \<Rightarrow> vault_packet_t) \<Rightarrow> u32 \<Rightarrow> u32 \<times> (nat \<Rightarrow> vault_packet_t)" where
  "get_range_loop bsz m seq_start seq_end max_count search_count i packets found =
     (if i < search_count \<and> found < max_count
      then (if seq (stored_at bsz m search_count i) \<ge> seq_start
               \<and> seq (stored_at bsz m search_count i) \<le> seq_end
            then get_range_loop bsz m seq_start seq_end max_count search_count (i + 1)
                   (packets(unat found := stored_at bsz m search_count i)) (found + 1)
            else get_range_loop bsz m seq_start seq_end max_count search_count (i + 1)
                   packets found)
      else (found, packets))"
  by pat_completeness auto
termination
  by (relation "measure (\<lambda>(bsz, m, seq_start, seq_end, max_count, search_count, i, packets, found).
                           unat search_count - unat i)")
     (simp, unat_arith, unat_arith)

declare get_range_loop.simps [simp del]

definition vault_memory_get_range ::
  "u32 \<Rightarrow> vault_memory_t option \<Rightarrow> u32 \<Rightarrow> u32 \<Rightarrow> (nat \<Rightarrow> vault_packet_t) option \<Rightarrow> u32 \<Rightarrow>
   u32 \<times> (nat \<Rightarrow> vault_packet_t) option" where
  "vault_memory_get_range bsz mem seq_start seq_end packets max_count =
     (case mem of
        None \<Rightarrow> (0, packets)
      | Some m \<Rightarrow>
          (case packets of
             None \<Rightarrow> (0, packets)
           | Some pk \<Rightarrow>
               if \<not> initialized m \<or> max_count = 0 then (0, packets)
               else (case get_range_loop bsz m seq_start seq_end max_count
                            (search_count_of bsz m) 0 pk 0 of
                       (found, pk') \<Rightarrow> (found, Some pk'))))"

text \<open>The first \<open>n\<close> elements of an array, as a list.\<close>

definition array_prefix :: "(nat \<Rightarrow> 'a) \<Rightarrow> nat \<Rightarrow> 'a list" where
  "array_prefix a n = map a [0..<n]"

section \<open>Replay (vault\_mqtt.h, vault\_mqtt.c)\<close>

definition VAULT_MQTT_TOPIC_EVENT :: string where
  "VAULT_MQTT_TOPIC_EVENT = ''vault/event''"

text \<open>
  The handle \<open>vault_mqtt_t\<close>. The broker client behind \<open>client\<close> is outside the program:
  the field holds the publish calls made on it so far, topic and payload, oldest first.
  The message id the client answers to its \<open>k\<close>-th publish call is an input, a function
  \<open>msg_ids\<close> of \<open>k\<close>; a negative id is a failure. The callbacks and the device MAC play
  no part in replay and are left out. The flag \<open>initialized\<close> of this struct is the field
  \<open>mqtt_initialized\<close>.
\<close>

record vault_mqtt_t =
  client :: "(string \<times> u8 list) list"
  memory :: "vault_memory_t option"
  connected :: bool
  mqtt_initialized :: bool

definition vault_mqtt_publish_event ::
  "(nat \<Rightarrow> int) \<Rightarrow> vault_mqtt_t option \<Rightarrow> vault_packet_t option \<Rightarrow> bool \<times> vault_mqtt_t option" where
  "vault_mqtt_publish_event msg_ids mqtt packet =
     (case mqtt of
        None \<Rightarrow> (False, mqtt)
      | Some q \<Rightarrow>
          (case packet of
             None \<Rightarrow> (False, mqtt)
           | Some p \<Rightarrow>
               if \<not> mqtt_initialized q \<or> \<not> connected q then (False, mqtt)
               else
                 let data = vault_protocol_serialize p;
                     msg_id = msg_ids (length (client q));
                     q' = q\<lparr>client := client q @ [(VAULT_MQTT_TOPIC_EVENT, data)]\<rparr>
                 in if msg_id < 0 then (False, Some q') else (True, Some q')))"

text \<open>
  The loop of \<open>vault_mqtt_handle_replay\<close> over the local array: element \<open>i\<close> gets the
  replay flag and a new checksum in place and is published; the answer of the publish
  call is dropped.
\<close>

function replay_loop ::
  "(u8 \<Rightarrow> u8) \<Rightarrow> (nat \<Rightarrow> int) \<Rightarrow> vault_mqtt_t option \<Rightarrow> (nat \<Rightarrow> vault_packet_t) \<Rightarrow> u32 \<Rightarrow> u32 \<Rightarrow>
   vault_mqtt_t option \<times> (nat \<Rightarrow> vault_packet_t)" where
  "replay_loop crc8_table msg_ids mqtt packets count i =
     (if i < count
      then
        let p1 = (packets (unat i))\<lparr>flags := flags (packets (unat i)) OR VAULT_FLAG_IS_REPLAY\<rparr>;
            p2 = vault_protocol_finalize_packet crc8_table p1;
            packets' = packets(unat i := p2);
            mqtt' = snd (vault_mqtt_publish_event msg_ids mqtt (Some (packets' (unat i))))
        in replay_loop crc8_table msg_ids mqtt' packets' count (i + 1)
      else (mqtt, packets))"
  by pat_completeness auto
termination
  by (relation "measure (\<lambda>(crc8_table, msg_ids, mqtt, packets, count, i). unat count - unat i)")
     (simp, unat_arith)

declare replay_loop.simps [simp del]

text \<open>
  \<open>vault_mqtt_handle_replay\<close>. What \<open>malloc\<close> answers is an input: \<open>None\<close> when it
  fails, otherwise the content of the fresh block, which is whatever the heap held. The
  block is private to the call and is freed at its end, so only the count and the handle
  come back.
\<close>

definition vault_mqtt_handle_replay ::
  "(u8 \<Rightarrow> u8) \<Rightarrow> u32 \<Rightarrow> (nat \<Rightarrow> vault_packet_t) option \<Rightarrow> (nat \<Rightarrow> int) \<Rightarrow>
   vault_mqtt_t option \<Rightarrow> u32 \<Rightarrow> u32 \<Rightarrow> u32 \<times> vault_mqtt_t option" where
  "vault_mqtt_handle_replay crc8_table bsz malloc_result msg_ids mqtt seq_start seq_end =
     (case mqtt of
        None \<Rightarrow> (0, mqtt)
      | Some q \<Rightarrow>
          if \<not> mqtt_initialized q \<or> \<not> connected q then (0, mqtt)
          else
            let max_replay = 100 in
            (case malloc_result of
               None \<Rightarrow> (0, mqtt)
             | Some block \<Rightarrow>
                 (case vault_memory_get_range bsz (memory q) seq_start seq_end
                         (Some block) max_replay of
                    (count, packets) \<Rightarrow>
                      (count, fst (replay_loop crc8_table msg_ids mqtt
                                     (case packets of Some pk \<Rightarrow> pk | None \<Rightarrow> block)
                                     count 0)))))"

section \<open>Reference notions\<close>

text \<open>
  The producer storing a list of packets, first element first.
\<close>

fun store_all :: "u32 \<Rightarrow> vault_memory_t option \<Rightarrow> vault_packet_t list \<Rightarrow> vault_memory_t option" where
  "store_all bsz mem [] = mem"
| "store_all bsz mem (p # ps) =
     store_all bsz (snd (vault_memory_store_history bsz mem (Some p))) ps"

text \<open>
  The slots that the loops of \<open>find_by_seq\<close> and \<open>get_range\<close> visit, in the order in
  which they visit them.
\<close>

definition scanned :: "u32 \<Rightarrow> vault_memory_t \<Rightarrow> vault_packet_t list" where
  "scanned bsz m =
     map (\<lambda>k. stored_at bsz m (search_count_of bsz m) (of_nat k))
       [0..<unat (search_count_of bsz m)]"

definition in_range :: "u32 \<Rightarrow> u32 \<Rightarrow> vault_packet_t \<Rightarrow> bool" where
  "in_range seq_start seq_end p = (seq_start \<le> seq p \<and> seq p \<le> seq_end)"

text \<open>What \<open>vault_mqtt_handle_replay\<close> does to one element before publishing it.\<close>

definition restamp :: "(u8 \<Rightarrow> u8) \<Rightarrow> vault_packet_t \<Rightarrow> vault_packet_t" where
  "restamp crc8_table p =
     vault_protocol_finalize_packet crc8_table (p\<lparr>flags := flags p OR VAULT_FLAG_IS_REPLAY\<rparr>)"


section \<open>Concrete inputs\<close>

text \<open>
  The theorems below hold for every lookup table. Where a checksum has to be evaluated
  on a concrete packet, this stand-in table is used.
\<close>

definition stand_in_table :: "u8 \<Rightarrow> u8" where
  "stand_in_table b = 3 * b + 1"

definition zero_region :: "nat \<Rightarrow> u8" where
  "zero_region a = 0"

text \<open>The handle \<open>vault_memory_init\<close> returns on a device whose durable store is empty.\<close>

definition fresh_handle :: vault_memory_t where
  "fresh_handle =
     \<lparr> history_buffer = zero_region, history_write_pos = 0, history_count = 0,
       seq_counter = 0, seq_last_synced = 0, initialized = True \<rparr>"

definition unready_handle :: vault_memory_t where
  "unready_handle =
     \<lparr> history_buffer = zero_region, history_write_pos = 0, history_count = 0,
       seq_counter = 5, seq_last_synced = 0, initialized = False \<rparr>"

text \<open>An event record as \<open>capture_task\<close> of main.c builds it, sealed with the stand-in table.\<close>

definition event_packet :: "u32 \<Rightarrow> vault_packet_t" where
  "event_packet s =
     vault_protocol_finalize_packet stand_in_table
       ((vault_protocol_init_packet VAULT_CMD_EVENT s)
          \<lparr>pin := 5, val := 1000, flags := VAULT_FLAG_INPUT_STATE\<rparr>)"

text \<open>The first \<open>n\<close> events of a session that starts at sequence 0.\<close>

definition events_upto :: "nat \<Rightarrow> vault_packet_t list" where
  "events_upto n = map (\<lambda>k. event_packet (of_nat k)) [0..<n]"

definition blank_packet :: vault_packet_t where
  "blank_packet = \<lparr> head = 0, cmd = 0, seq = 0, pin = 0, flags = 0, val = 0, crc = 0 \<rparr>"

definition blank_block :: "nat \<Rightarrow> vault_packet_t" where
  "blank_block k = blank_packet"

text \<open>A connected client handle that has published nothing yet, over a given memory handle.\<close>

definition connected_client :: "vault_memory_t option \<Rightarrow> vault_mqtt_t" where
  "connected_client mem =
     \<lparr> client = [], memory = mem, connected = True, mqtt_initialized = True \<rparr>"

text \<open>A broker client that accepts every publish call, and one that refuses every call.\<close>

definition accepting :: "nat \<Rightarrow> int" where
  "accepting k = int k + 1"



definition history_byte :: "vault_memory_t option \<Rightarrow> nat \<Rightarrow> u8 option" where
  "history_byte mem a = map_option (\<lambda>m. history_buffer m a) mem"

section \<open>Byte-level facts\<close>

lemma le32_read_le32:
  "le32_read (ucast w) (ucast (drop_bit 8 w)) (ucast (drop_bit 16 w)) (ucast (drop_bit 24 w)) = w"
  unfolding le32_read_def
proof (rule bit_word_eqI)
  fix n :: nat
  assume n: "n < LENGTH(32)"
  have a: "n < 8 \<or> (8 \<le> n \<and> n < 16) \<or> (16 \<le> n \<and> n < 24) \<or> 24 \<le> n"
    by arith
  show "bit (ucast (ucast w :: u8) OR push_bit 8 (ucast (ucast (drop_bit 8 w) :: u8)) OR
          push_bit 16 (ucast (ucast (drop_bit 16 w) :: u8)) OR
          push_bit 24 (ucast (ucast (drop_bit 24 w) :: u8)) :: u32) n = bit w n"
    using n a by (auto simp add: bit_simps)
qed

lemma replicate_num: "replicate (numeral k) x = x # replicate (pred_numeral k) x"
  by (simp add: numeral_eq_Suc)

section \<open>The codec\<close>

lemma parse_serialize_sealed:
  assumes "head p = VAULT_PROTO_HEAD"
    and "crc p = vault_protocol_calc_crc8 crc8_table (take 12 (vault_protocol_serialize p))"
  shows "vault_protocol_parse crc8_table (vault_protocol_serialize p) = Inr p"
proof -
  have "vault_protocol_parse crc8_table (vault_protocol_serialize p) =
        Inr \<lparr> head = head p, cmd = cmd p, seq = seq p, pin = pin p, flags = flags p,
               val = val p, crc = crc p \<rparr>"
    using assms
    by (simp add: vault_protocol_parse_def vault_protocol_serialize_def
        VAULT_PROTO_PACKET_SIZE_def le32_read_le32)
  then show ?thesis by simp
qed

lemma finalize_sealed:
  "vault_protocol_validate_packet crc8_table p \<Longrightarrow>
   vault_protocol_finalize_packet crc8_table p = p"
  by (simp add: vault_protocol_validate_packet_def vault_protocol_finalize_packet_def
      split: if_splits)

lemma finalize_checksum:
  "crc (vault_protocol_finalize_packet crc8_table p) =
   vault_protocol_calc_crc8 crc8_table
     (take 12 (vault_protocol_serialize (vault_protocol_finalize_packet crc8_table p)))"
  by (simp add: vault_protocol_finalize_packet_def vault_protocol_serialize_def)

lemma parse_serialize_finalize:
  "head r = VAULT_PROTO_HEAD \<Longrightarrow>
   vault_protocol_parse crc8_table
     (vault_protocol_serialize (vault_protocol_finalize_packet crc8_table r)) =
   Inr (vault_protocol_finalize_packet crc8_table r)"
  by (rule parse_serialize_sealed)
     (simp_all add: vault_protocol_finalize_packet_def vault_protocol_serialize_def)

text \<open>
  C2. Round trip: a record that validates (sentinel in place, checksum sealed) comes back
  unchanged from finalizing, serializing and parsing.
\<close>

theorem codec_round_trip:
  "vault_protocol_validate_packet crc8_table r \<Longrightarrow>
   vault_protocol_parse crc8_table
     (vault_protocol_serialize (vault_protocol_finalize_packet crc8_table r)) = Inr r"
  by (simp add: finalize_sealed parse_serialize_sealed vault_protocol_validate_packet_def
      split: if_splits)

theorem codec_round_trip_witness:
  "vault_protocol_validate_packet stand_in_table
     \<lparr> head = 0xAA, cmd = 2, seq = 7, pin = 0, flags = 0, val = 0, crc = 0xAB \<rparr>
   \<and> vault_protocol_parse stand_in_table
       (vault_protocol_serialize (vault_protocol_finalize_packet stand_in_table
          \<lparr> head = 0xAA, cmd = 2, seq = 7, pin = 0, flags = 0, val = 0, crc = 0xAB \<rparr>)) =
     Inr \<lparr> head = 0xAA, cmd = 2, seq = 7, pin = 0, flags = 0, val = 0, crc = 0xAB \<rparr>"
proof -
  have v: "vault_protocol_validate_packet stand_in_table
     \<lparr> head = 0xAA, cmd = 2, seq = 7, pin = 0, flags = 0, val = 0, crc = 0xAB \<rparr>"
    by (simp add: vault_protocol_validate_packet_def VAULT_PROTO_HEAD_def
        vault_protocol_serialize_def vault_protocol_calc_crc8_def stand_in_table_def)
  show ?thesis using v codec_round_trip [OF v] by simp
qed

section \<open>The sequence counter\<close>

lemma init_fresh:
  "vault_memory_init True region ok [] =
     Some \<lparr> history_buffer = region, history_write_pos = 0, history_count = 0,
            seq_counter = 0, seq_last_synced = 0, initialized = True \<rparr>"
  by (simp add: vault_memory_init_def vault_memory_load_seq_from_nvs_def Let_def)

lemma init_loaded:
  "vault_memory_init True region True [v] =
     Some \<lparr> history_buffer = region, history_write_pos = 0, history_count = 0,
            seq_counter = v, seq_last_synced = v, initialized = True \<rparr>"
  by (simp add: vault_memory_init_def vault_memory_load_seq_from_nvs_def Let_def)

lemma get_next_seq_Some:
  assumes "initialized m"
  shows "\<exists>m' nvs'. vault_memory_get_next_seq out (Some m) nvs = (seq_counter m, Some m', nvs')
           \<and> initialized m' \<and> seq_counter m' = seq_counter m + 1"
  using assms
  by (cases out)
     (simp_all add: vault_memory_get_next_seq_def vault_memory_sync_seq_to_nvs_def Let_def)

lemma next_seq_calls_values:
  "initialized m \<Longrightarrow>
   fst (next_seq_calls outs (Some m) nvs) =
     map (\<lambda>k. seq_counter m + of_nat k) [0..<length outs]"
proof (induction outs arbitrary: m nvs)
  case Nil
  then show ?case by simp
next
  case (Cons out outs)
  from get_next_seq_Some [OF Cons.prems, of out nvs]
  obtain m' nvs' where step:
    "vault_memory_get_next_seq out (Some m) nvs = (seq_counter m, Some m', nvs')"
    "initialized m'" "seq_counter m' = seq_counter m + 1"
    by blast
  have "fst (next_seq_calls outs (Some m') nvs') =
          map (\<lambda>k. seq_counter m' + of_nat k) [0..<length outs]"
    by (rule Cons.IH [OF step(2)])
  moreover have "map (\<lambda>k. seq_counter m + of_nat k) [0..<length (out # outs)] =
     seq_counter m # map (\<lambda>k. seq_counter m' + of_nat k) [0..<length outs]"
    by (simp add: upt_rec [of 0 "Suc _"] map_Suc_upt [symmetric] step(3) add.assoc
        del: upt_Suc)
  ultimately show ?case
    using step(1) by (simp add: split_beta del: upt_Suc)
qed

lemma counting_up_sorted:
  fixes c :: u32
  assumes "unat c + n \<le> 2 ^ 32"
  shows "sorted_wrt (<) (map (\<lambda>k. c + of_nat k) [0..<n])"
proof -
  have u: "unat (c + of_nat k) = unat c + k" if "k < n" for k
  proof -
    have "unat c + k < 2 ^ 32" using that assms by simp
    then show ?thesis
      by (simp add: unat_word_ariths unat_of_nat)
  qed
  show ?thesis
    by (simp add: sorted_wrt_iff_nth_less word_less_nat_alt u)
qed

text \<open>
  C3, as the spec states it, fails where the 32-bit counter wraps: a handle initialised
  from a durable value of \<open>0xFFFFFFFF\<close> issues \<open>0xFFFFFFFF\<close> and then \<open>0\<close>.
\<close>

theorem next_seq_wraps_counterexample:
  "fst (next_seq_calls [NVS_OK, NVS_OK]
          (vault_memory_init True zero_region True [0xFFFFFFFF]) []) = [0xFFFFFFFF, 0]
   \<and> \<not> sorted_wrt (<) (fst (next_seq_calls [NVS_OK, NVS_OK]
          (vault_memory_init True zero_region True [0xFFFFFFFF]) []))"
  by (simp add: init_loaded vault_memory_get_next_seq_def vault_memory_sync_seq_to_nvs_def
      Let_def VAULT_SEQ_SYNC_INTERVAL_def word_le_nat_alt)

text \<open>
  C3, amended. On an initialised handle the \<open>k\<close>-th of \<open>n\<close> successive calls returns the
  counter plus \<open>k\<close> modulo \<open>2^32\<close>, whatever the durable store answers; the values are
  strictly increasing as long as the counter does not pass \<open>2^32 - 1\<close> within the run.
\<close>

theorem next_seq_step_one:
  "initialized m \<Longrightarrow>
   fst (next_seq_calls outs (Some m) nvs) =
     map (\<lambda>k. seq_counter m + of_nat k) [0..<length outs]
   \<and> (unat (seq_counter m) + length outs \<le> 2 ^ 32 \<longrightarrow>
        sorted_wrt (<) (fst (next_seq_calls outs (Some m) nvs)))"
  by (simp add: next_seq_calls_values counting_up_sorted)

theorem next_seq_step_one_witness:
  "initialized fresh_handle
   \<and> unat (seq_counter fresh_handle) + length [NVS_OK, NVS_COMMIT_FAILS, NVS_OK] \<le> 2 ^ 32
   \<and> fst (next_seq_calls [NVS_OK, NVS_COMMIT_FAILS, NVS_OK] (Some fresh_handle) []) = [0, 1, 2]
   \<and> sorted_wrt (<) (fst (next_seq_calls [NVS_OK, NVS_COMMIT_FAILS, NVS_OK] (Some fresh_handle) []))"
proof -
  have i: "initialized fresh_handle"
    by (simp add: fresh_handle_def)
  have c: "seq_counter fresh_handle = 0"
    by (simp add: fresh_handle_def)
  show ?thesis
    using i next_seq_step_one [OF i, of "[NVS_OK, NVS_COMMIT_FAILS, NVS_OK]" "[]"]
    by (simp add: c upt_rec)
qed

text \<open>
  C5. From a fresh handle with a durable store that always succeeds, the first value is
  committed by the eleventh call and the second by the twenty-second: eleven identifiers
  are issued from one synchronisation to the next, not ten.
\<close>

theorem sync_period_is_eleven:
  "snd (snd (next_seq_calls (replicate 10 NVS_OK)
               (vault_memory_init True zero_region True []) [])) = []
   \<and> snd (snd (next_seq_calls (replicate 11 NVS_OK)
               (vault_memory_init True zero_region True []) [])) = [11]
   \<and> snd (snd (next_seq_calls (replicate 21 NVS_OK)
               (vault_memory_init True zero_region True []) [])) = [11]
   \<and> snd (snd (next_seq_calls (replicate 22 NVS_OK)
               (vault_memory_init True zero_region True []) [])) = [11, 22]"
  by (simp add: init_fresh replicate_num word_le_nat_alt vault_memory_get_next_seq_def
      vault_memory_sync_seq_to_nvs_def Let_def VAULT_SEQ_SYNC_INTERVAL_def)

text \<open>
  C10. With a null handle, or a handle that is not initialised, \<open>vault_memory_get_next_seq\<close>
  returns 0 and changes nothing; 0 is also the first value a freshly initialised handle
  issues.
\<close>

theorem next_seq_null_or_uninitialized:
  "vault_memory_get_next_seq out None nvs = (0, None, nvs)
   \<and> (\<not> initialized m \<longrightarrow> vault_memory_get_next_seq out (Some m) nvs = (0, Some m, nvs))
   \<and> (vault_memory_init True region open_ok [] = Some m' \<longrightarrow>
        fst (vault_memory_get_next_seq out (Some m') nvs) = 0)"
  by (auto simp add: init_fresh vault_memory_get_next_seq_def vault_memory_sync_seq_to_nvs_def
      Let_def split: nvs_outcome.splits)

theorem next_seq_null_or_uninitialized_witness:
  "\<not> initialized unready_handle
   \<and> vault_memory_get_next_seq NVS_OK (Some unready_handle) [] = (0, Some unready_handle, [])
   \<and> vault_memory_init True zero_region True [] = Some fresh_handle
   \<and> fst (vault_memory_get_next_seq NVS_OK (Some fresh_handle) []) = 0"
  using next_seq_null_or_uninitialized [of NVS_OK "[]" unready_handle zero_region True fresh_handle]
  by (simp add: unready_handle_def fresh_handle_def init_fresh)

section \<open>The history buffer\<close>

lemma unat_succ_less: "(i :: u32) < n \<Longrightarrow> unat (i + 1) = Suc (unat i)"
  by unat_arith

lemma array_prefix_snoc: "array_prefix (a(n := x)) (Suc n) = array_prefix a n @ [x]"
  by (simp add: array_prefix_def)

lemma get_range_loop_scan:
  "i \<le> sc \<Longrightarrow> found \<le> mx \<Longrightarrow>
   get_range_loop bsz m a b mx sc i pk found = (found', pk') \<Longrightarrow>
   array_prefix pk' (unat found') =
     array_prefix pk (unat found) @
     take (unat mx - unat found)
       (filter (in_range a b) (map (\<lambda>k. stored_at bsz m sc (of_nat k)) [unat i..<unat sc]))"
proof (induction bsz m a b mx sc i pk found rule: get_range_loop.induct)
  case (1 bsz m a b mx sc i pk found)
  show ?case
  proof (cases "i < sc \<and> found < mx")
    case False
    with "1.prems"(3) have r: "found' = found" "pk' = pk"
      by (simp_all add: get_range_loop.simps)
    from False "1.prems"(1,2) have "i = sc \<or> found = mx" by auto
    then show ?thesis using r by auto
  next
    case True
    then have lt: "i < sc" "found < mx" by simp_all
    have ui: "unat (i + 1) = Suc (unat i)" using lt(1) by (rule unat_succ_less)
    have uf: "unat (found + 1) = Suc (unat found)" using lt(2) by (rule unat_succ_less)
    have le1: "i + 1 \<le> sc" using lt(1) by unat_arith
    have le2: "found + 1 \<le> mx" using lt(2) by unat_arith
    have lts: "unat i < unat sc" "unat found < unat mx"
      using lt by (simp_all add: word_less_nat_alt)
    have slots: "[unat i..<unat sc] = unat i # [unat (i + 1)..<unat sc]"
      using lts(1) by (simp add: ui upt_conv_Cons)
    let ?x = "stored_at bsz m sc i"
    show ?thesis
    proof (cases "seq ?x \<ge> a \<and> seq ?x \<le> b")
      case True
      then have inr: "in_range a b ?x" by (simp add: in_range_def)
      from True lt "1.prems"(3)
      have "get_range_loop bsz m a b mx sc (i + 1) (pk(unat found := ?x)) (found + 1) = (found', pk')"
        by (simp add: get_range_loop.simps [of bsz m a b mx sc i])
      from "1.IH"(1) [OF \<open>i < sc \<and> found < mx\<close> True le1 le2 this]
      have "array_prefix pk' (unat found') =
              array_prefix (pk(unat found := ?x)) (unat (found + 1)) @
              take (unat mx - unat (found + 1))
                (filter (in_range a b) (map (\<lambda>k. stored_at bsz m sc (of_nat k)) [unat (i + 1)..<unat sc]))" .
      then show ?thesis
        using inr lts by (simp add: slots uf array_prefix_snoc take_Cons' del: upt_Suc)
    next
      case False
      then have inr: "\<not> in_range a b ?x" by (simp add: in_range_def)
      from False lt "1.prems"(3)
      have "get_range_loop bsz m a b mx sc (i + 1) pk found = (found', pk')"
        by (auto simp add: get_range_loop.simps [of bsz m a b mx sc i] split: if_splits)
      from "1.IH"(2) [OF \<open>i < sc \<and> found < mx\<close> False le1 "1.prems"(2) this]
      show ?thesis
        using inr by (simp add: slots del: upt_Suc)
    qed
  qed
qed

lemma find_by_seq_loop_scan:
  "i \<le> sc \<Longrightarrow>
   find_by_seq_loop bsz m s sc i =
     List.find (\<lambda>p. seq p = s) (map (\<lambda>k. stored_at bsz m sc (of_nat k)) [unat i..<unat sc])"
proof (induction bsz m s sc i rule: find_by_seq_loop.induct)
  case (1 bsz m s sc i)
  show ?case
  proof (cases "i < sc")
    case False
    with "1.prems" have "i = sc" by auto
    then show ?thesis by (simp add: find_by_seq_loop.simps)
  next
    case True
    have ui: "unat (i + 1) = Suc (unat i)" using True by (rule unat_succ_less)
    have le1: "i + 1 \<le> sc" using True by unat_arith
    have "unat i < unat sc" using True by (simp add: word_less_nat_alt)
    then have slots: "[unat i..<unat sc] = unat i # [unat (i + 1)..<unat sc]"
      by (simp add: ui upt_conv_Cons)
    show ?thesis
    proof (cases "seq (stored_at bsz m sc i) = s")
      case True
      with \<open>i < sc\<close> show ?thesis
        by (simp add: find_by_seq_loop.simps [of bsz m s sc i] slots del: upt_Suc)
    next
      case False
      from "1.IH" [OF \<open>i < sc\<close> False le1] False \<open>i < sc\<close> show ?thesis
        by (simp add: find_by_seq_loop.simps [of bsz m s sc i] slots del: upt_Suc)
    qed
  qed
qed

lemma find_by_seq_scanned:
  "initialized m \<Longrightarrow>
   vault_memory_find_by_seq bsz (Some m) s (Some out) =
     (case List.find (\<lambda>p. seq p = s) (scanned bsz m) of
        Some stored \<Rightarrow> (True, Some stored) | None \<Rightarrow> (False, Some out))"
  by (simp add: vault_memory_find_by_seq_def find_by_seq_loop_scan scanned_def)

lemma get_range_scanned:
  assumes "initialized m"
  shows "\<exists>found pk'. vault_memory_get_range bsz (Some m) a b (Some pk) mx = (found, Some pk')
           \<and> array_prefix pk' (unat found) = take (unat mx) (filter (in_range a b) (scanned bsz m))"
proof (cases "mx = 0")
  case True
  then show ?thesis by (simp add: vault_memory_get_range_def array_prefix_def)
next
  case False
  obtain found pk' where r:
     "get_range_loop bsz m a b mx (search_count_of bsz m) 0 pk 0 = (found, pk')"
    by (cases "get_range_loop bsz m a b mx (search_count_of bsz m) 0 pk 0")
  from get_range_loop_scan [OF _ _ r]
  have "array_prefix pk' (unat found) = take (unat mx) (filter (in_range a b) (scanned bsz m))"
    by (simp add: array_prefix_def scanned_def)
  then show ?thesis using assms False r by (simp add: vault_memory_get_range_def)
qed

lemma array_prefix_length: "length (array_prefix a n) = n"
  by (simp add: array_prefix_def)

lemma memcpy_apply:
  "memcpy m a bs x = (if a \<le> x \<and> x < a + length bs then bs ! (x - a) else m x)"
proof (induction bs arbitrary: m a)
  case Nil
  then show ?case by auto
next
  case (Cons b bs)
  show ?case
    by (simp add: Cons.IH nth_Cons')
qed

lemma packet_bytes_length: "length (packet_bytes p) = 13"
  by (simp add: packet_bytes_def le32_def)

lemma load_packet_memcpy_same:
  "load_packet (memcpy m a (packet_bytes p)) a = p"
proof -
  have "load_packet (memcpy m a (packet_bytes p)) a =
        \<lparr> head = head p, cmd = cmd p, seq = seq p, pin = pin p, flags = flags p,
          val = val p, crc = crc p \<rparr>"
    by (simp add: load_packet_def memcpy_apply packet_bytes_def le32_def le32_read_le32)
  then show ?thesis by simp
qed

lemma load_packet_memcpy_other:
  "a' + 13 \<le> a \<or> a + 13 \<le> a' \<Longrightarrow>
   load_packet (memcpy m a (packet_bytes p)) a' = load_packet m a'"
  by (auto simp add: load_packet_def memcpy_apply packet_bytes_length)

lemma store_all_snoc:
  "store_all bsz mem (ps @ [p]) =
   snd (vault_memory_store_history bsz (store_all bsz mem ps) (Some p))"
  by (induction ps arbitrary: mem) simp_all

text \<open>Word arithmetic of the slot computation.\<close>

lemma slot_facts:
  fixes bsz :: u32
  assumes "n < unat bsz div 13"
  shows "unat (of_nat n :: u32) = n"
    and "unat ((of_nat n :: u32) * 13) = 13 * n"
    and "unat (((of_nat n :: u32) * 13) mod bsz) = 13 * n"
    and "(of_nat n :: u32) < bsz div 13"
proof -
  have b: "unat bsz < 2 ^ 32" using unsigned_less [of bsz] by simp
  have n13: "13 * n + 13 \<le> unat bsz" using assms by arith
  then have small: "n < 2 ^ 32" "13 * n < 2 ^ 32" using b by arith+
  show u: "unat (of_nat n :: u32) = n"
    using small by (simp add: unat_of_nat)
  show m: "unat ((of_nat n :: u32) * 13) = 13 * n"
    using small by (simp add: unat_word_ariths u mult.commute)
  show "unat (((of_nat n :: u32) * 13) mod bsz) = 13 * n"
    using n13 by (simp add: unat_mod m)
  show "(of_nat n :: u32) < bsz div 13"
    using assms by (simp add: word_less_nat_alt u unat_div)
qed

text \<open>
  When the region size is a multiple of 13, the offset the store computes is the start of
  slot \<open>write_pos mod C\<close>. The size the firmware is built with leaves a remainder of 5.
\<close>

lemma store_offset_when_divisible:
  fixes bsz :: u32
  assumes "unat bsz mod 13 = 0" "13 * n < 2 ^ 32"
  shows "unat ((of_nat n * 13) mod bsz) = 13 * (n mod (unat bsz div 13))"
proof -
  have n: "n < 2 ^ 32" using assms(2) by simp
  have u: "unat (of_nat n :: u32) = n" using n by (simp add: unat_of_nat)
  have m: "unat ((of_nat n :: u32) * 13) = 13 * n"
    using assms(2) by (simp add: unat_word_ariths u mult.commute)
  have b: "unat bsz = 13 * (unat bsz div 13)" using assms(1) by auto
  have "unat ((of_nat n * 13) mod bsz) = (13 * n) mod unat bsz"
    by (simp add: unat_mod m)
  also have "\<dots> = (13 * n) mod (13 * (unat bsz div 13))" using b by simp
  also have "\<dots> = 13 * (n mod (unat bsz div 13))" by (rule mult_mod_right [symmetric])
  finally show ?thesis .
qed

lemma buffer_size_remainder: "unat VAULT_HISTORY_BUFFER_SIZE mod 13 = 5"
  by (simp add: VAULT_HISTORY_BUFFER_SIZE_def)

lemma store_history_step:
  assumes "initialized m"
  shows "vault_memory_store_history bsz (Some m) (Some p) =
     (True, Some (m\<lparr>history_buffer :=
                      memcpy (history_buffer m) (unat ((history_write_pos m * 13) mod bsz))
                        (packet_bytes p),
                    history_write_pos := history_write_pos m + 1,
                    history_count := (if history_count m < VAULT_HISTORY_MAX_ENTRIES bsz
                                      then history_count m + 1 else history_count m)\<rparr>))"
  using assms by (simp add: vault_memory_store_history_def Let_def)

lemma store_all_before_wrap:
  assumes "initialized m0" "history_write_pos m0 = 0" "history_count m0 = 0"
  shows "length ps \<le> unat bsz div 13 \<Longrightarrow>
     \<exists>m. store_all bsz (Some m0) ps = Some m \<and> initialized m
       \<and> history_write_pos m = of_nat (length ps) \<and> history_count m = of_nat (length ps)
       \<and> (\<forall>k < length ps. load_packet (history_buffer m) (13 * k) = ps ! k)"
proof (induction ps rule: rev_induct)
  case Nil
  then show ?case using assms by simp
next
  case (snoc p ps)
  let ?n = "length ps"
  from snoc.prems have n: "?n < unat bsz div 13" by simp
  with snoc.IH obtain m where m:
    "store_all bsz (Some m0) ps = Some m" "initialized m"
    "history_write_pos m = of_nat ?n" "history_count m = of_nat ?n"
    "\<forall>k < ?n. load_packet (history_buffer m) (13 * k) = ps ! k"
    by auto
  note sf = slot_facts [OF n]
  let ?m' = "m\<lparr>history_buffer := memcpy (history_buffer m) (13 * ?n) (packet_bytes p),
               history_write_pos := of_nat (Suc ?n), history_count := of_nat (Suc ?n)\<rparr>"
  have st: "store_all bsz (Some m0) (ps @ [p]) = Some ?m'"
    using m(1-4) sf(3,4)
    by (simp add: store_all_snoc store_history_step VAULT_HISTORY_MAX_ENTRIES_def)
  have "load_packet (history_buffer ?m') (13 * k) = (ps @ [p]) ! k" if "k < Suc ?n" for k
  proof (cases "k = ?n")
    case True
    then show ?thesis by (simp add: load_packet_memcpy_same)
  next
    case False
    with that have "k < ?n" by simp
    then have "13 * k + 13 \<le> 13 * ?n" by simp
    then show ?thesis using m(5) \<open>k < ?n\<close>
      by (simp add: load_packet_memcpy_other nth_append)
  qed
  then show ?case using st m(2) by simp
qed

lemma scanned_before_wrap:
  assumes "initialized m0" "history_write_pos m0 = 0" "history_count m0 = 0"
    and "length ps \<le> unat bsz div 13"
    and "store_all bsz (Some m0) ps = Some m"
  shows "initialized m \<and> scanned bsz m = ps"
proof -
  let ?n = "length ps"
  from store_all_before_wrap [OF assms(1-4)] assms(5)
  have m: "initialized m" "history_write_pos m = of_nat ?n" "history_count m = of_nat ?n"
    "\<forall>k < ?n. load_packet (history_buffer m) (13 * k) = ps ! k"
    by auto
  have C: "unat (bsz div 13) = unat bsz div 13" by (simp add: unat_div)
  have sc: "search_count_of bsz m = of_nat ?n"
  proof (cases "?n < unat bsz div 13")
    case True
    from slot_facts(4) [OF True] show ?thesis
      by (simp add: search_count_of_def m(3) VAULT_HISTORY_MAX_ENTRIES_def)
  next
    case False
    with assms(4) have "?n = unat (bsz div 13)" using C by simp
    then have "(of_nat ?n :: u32) = bsz div 13" by simp
    then show ?thesis
      by (simp add: search_count_of_def m(3) VAULT_HISTORY_MAX_ENTRIES_def)
  qed
  have un: "unat (of_nat ?n :: u32) = ?n"
  proof -
    have "unat (bsz div 13) < 2 ^ 32" using unsigned_less [of "bsz div 13"] by simp
    with assms(4) C have "?n < 2 ^ 32" by simp
    then show ?thesis by (simp add: unat_of_nat)
  qed
  have slot: "stored_at bsz m (of_nat ?n) (of_nat k) = ps ! k" if "k < ?n" for k
  proof -
    from that assms(4) have k: "k < unat bsz div 13" by simp
    note sf = slot_facts [OF k]
    have "(of_nat k :: u32) mod (bsz div 13) = of_nat k"
      using sf(4) by (simp add: word_mod_less_divisor mod_word_less)
    then show ?thesis
      using m(4) that sf(2)
      by (simp add: stored_at_def m(2) VAULT_HISTORY_MAX_ENTRIES_def Let_def)
  qed
  have "scanned bsz m = map (\<lambda>k. ps ! k) [0..<?n]"
    unfolding scanned_def sc un
    by (rule map_cong) (simp_all add: slot)
  then show ?thesis using m(1) by (simp add: map_nth)
qed

text \<open>
  Before the write position has passed the capacity, \<open>get_range\<close> hands out the stored
  records that lie in the range, in the order in which they were stored, cut at
  \<open>max_count\<close>.
\<close>

lemma get_range_before_wrap:
  assumes "initialized m0" "history_write_pos m0 = 0" "history_count m0 = 0"
    and "length ps \<le> unat bsz div 13"
  shows "\<exists>found pk'.
     vault_memory_get_range bsz (store_all bsz (Some m0) ps) a b (Some pk) mx = (found, Some pk')
     \<and> array_prefix pk' (unat found) = take (unat mx) (filter (in_range a b) ps)"
proof -
  from store_all_before_wrap [OF assms]
  obtain m where m: "store_all bsz (Some m0) ps = Some m" by blast
  from scanned_before_wrap [OF assms m] have s: "initialized m" "scanned bsz m = ps"
    by simp_all
  from get_range_scanned [OF s(1), of bsz a b pk mx] show ?thesis
    by (simp add: m s(2))
qed

lemma scanned_after_wrap:
  assumes fresh: "initialized m0" "history_write_pos m0 = 0" "history_count m0 = 0"
    and odd: "unat bsz mod 13 \<noteq> 0"
    and len: "length ps = unat bsz div 13" "ps \<noteq> []"
  shows "\<exists>m'. store_all bsz (Some m0) (ps @ [p]) = Some m'
         \<and> initialized m' \<and> scanned bsz m' = rotate1 ps
         \<and> history_buffer m' (13 * length ps) = head p"
proof -
  let ?C = "unat bsz div 13"
  let ?C' = "bsz div 13"
  have C: "unat ?C' = ?C" by (simp add: unat_div)
  have Cpos: "0 < ?C" using len(2) by (simp flip: len(1))
  have b: "unat bsz < 2 ^ 32" using unsigned_less [of bsz] by simp
  have room: "13 * ?C < unat bsz"
    using odd by (metis mult.commute div_mult_mod_eq less_add_same_cancel1 neq0_conv)
  from store_all_before_wrap [OF fresh, of ps bsz] len
  obtain m where m: "store_all bsz (Some m0) ps = Some m" "initialized m"
    "history_write_pos m = of_nat ?C" "history_count m = of_nat ?C"
    "\<forall>k < ?C. load_packet (history_buffer m) (13 * k) = ps ! k"
    by auto
  have ofC: "(of_nat ?C :: u32) = ?C'"
    using C by (metis of_nat_unat ucast_id)
  have u13: "unat (?C' * 13) = 13 * ?C"
    using room b by (simp add: unat_word_ariths C mult.commute)
  have off: "unat ((?C' * 13) mod bsz) = 13 * ?C"
    using room by (simp add: unat_mod u13)
  let ?buf = "memcpy (history_buffer m) (13 * ?C) (packet_bytes p)"
  define m' where "m' = m\<lparr>history_buffer := ?buf, history_write_pos := ?C' + 1,
                     history_count := ?C'\<rparr>"
  note m' = m'_def
  have st: "store_all bsz (Some m0) (ps @ [p]) = Some m'"
    using m(1,2,3,4)
    by (auto simp add: m'_def store_all_snoc store_history_step ofC off VAULT_HISTORY_MAX_ENTRIES_def)
  have sc: "search_count_of bsz m' = ?C'"
    by (simp add: m' search_count_of_def VAULT_HISTORY_MAX_ENTRIES_def)
  have slot: "stored_at bsz m' ?C' (of_nat k) = rotate1 ps ! k" if "k < ?C" for k
  proof -
    let ?j = "Suc k mod ?C"
    have j: "?j < ?C" using Cpos by simp
    have "unat ?C' < 2 ^ 32" using unsigned_less [of ?C'] by simp
    then have k32: "Suc k < 2 ^ 32" using that C by simp
    have "unat (1 + of_nat k :: u32) = Suc k"
      using k32 by (simp add: unat_word_ariths unat_of_nat)
    then have "unat ((1 + of_nat k :: u32) mod ?C') = ?j"
      by (simp add: unat_mod C)
    then have pos: "(1 + of_nat k :: u32) mod ?C' = of_nat ?j"
      by (metis of_nat_unat ucast_id)
    note sf = slot_facts [OF j]
    have "13 * ?j + 13 \<le> 13 * ?C" using j by simp
    then have "load_packet ?buf (13 * ?j) = load_packet (history_buffer m) (13 * ?j)"
      by (simp add: load_packet_memcpy_other)
    also have "\<dots> = ps ! ?j" using m(5) j by simp
    also have "\<dots> = rotate1 ps ! k" using that len by (simp add: nth_rotate1)
    finally show ?thesis
      using sf(2)
      by (simp add: stored_at_def m' VAULT_HISTORY_MAX_ENTRIES_def Let_def pos)
  qed
  have "scanned bsz m' = map (\<lambda>k. rotate1 ps ! k) [0..<?C]"
    unfolding scanned_def sc C
    by (rule map_cong) (simp_all add: slot)
  also have "\<dots> = rotate1 ps"
    using len(1) by (metis length_rotate1 map_nth)
  finally have "scanned bsz m' = rotate1 ps" .
  moreover have "history_buffer m' (13 * length ps) = head p"
    by (simp add: m' len memcpy_apply packet_bytes_def le32_def)
  ultimately show ?thesis using m(2) st by (simp add: m')
qed

lemma fresh_handle_facts:
  "initialized fresh_handle" "history_write_pos fresh_handle = 0"
  "history_count fresh_handle = 0"
  by (simp_all add: fresh_handle_def)

lemma buffer_size: "unat VAULT_HISTORY_BUFFER_SIZE = 2097152"
  by (simp add: VAULT_HISTORY_BUFFER_SIZE_def)

lemma seq_event_packet: "seq (event_packet s) = s"
  by (simp add: event_packet_def vault_protocol_finalize_packet_def vault_protocol_init_packet_def)

lemma events_upto_length: "length (events_upto n) = n"
  by (simp add: events_upto_def)

lemma events_upto_set:
  "x \<in> set (events_upto n) \<Longrightarrow> \<exists>k < n. x = event_packet (of_nat k)"
  by (auto simp add: events_upto_def)

lemma events_upto_Suc:
  "events_upto (Suc n) = event_packet 0 # map (\<lambda>k. event_packet (of_nat (Suc k))) [0..<n]"
  by (simp add: events_upto_def upt_rec [of 0 "Suc n"] map_Suc_upt [symmetric] del: upt_Suc)

lemma of_nat_eq32:
  "k < 2 ^ 32 \<Longrightarrow> j < 2 ^ 32 \<Longrightarrow> (of_nat k :: u32) = of_nat j \<Longrightarrow> k = j"
proof -
  assume k: "k < 2 ^ 32" and j: "j < 2 ^ 32" and e: "(of_nat k :: u32) = of_nat j"
  from e have "unat (of_nat k :: u32) = unat (of_nat j :: u32)" by simp
  then show "k = j" using k j by (simp add: unat_of_nat)
qed

lemma find_snoc_last:
  "\<forall>x \<in> set xs. \<not> P x \<Longrightarrow> P y \<Longrightarrow> List.find P (xs @ [y]) = Some y"
  by (induction xs) simp_all

lemma wrapped_store:
  "\<exists>m. store_all VAULT_HISTORY_BUFFER_SIZE (Some fresh_handle)
             (events_upto 161319 @ [event_packet 161319]) = Some m \<and> initialized m
           \<and> scanned VAULT_HISTORY_BUFFER_SIZE m = rotate1 (events_upto 161319)
           \<and> history_buffer m 2097147 = 0xAA"
proof -
  have f: "initialized fresh_handle" "history_write_pos fresh_handle = 0"
    "history_count fresh_handle = 0"
    by (simp_all add: fresh_handle_def)
  have n: "length (events_upto 161319) = unat VAULT_HISTORY_BUFFER_SIZE div 13"
    by (simp add: events_upto_length buffer_size)
  have ne: "events_upto 161319 \<noteq> []"
    using events_upto_length [of 161319] by auto
  have odd: "unat VAULT_HISTORY_BUFFER_SIZE mod 13 \<noteq> 0"
    by (simp add: buffer_size)
  have h: "head (event_packet 161319) = 0xAA"
    by (simp add: event_packet_def vault_protocol_finalize_packet_def
        vault_protocol_init_packet_def VAULT_PROTO_HEAD_def)
  from scanned_after_wrap [OF f odd n ne, of "event_packet 161319"]
  show ?thesis by (simp add: events_upto_length h)
qed

lemma events_upto_split:
  assumes "0 < n" "n \<le> 2 ^ 32"
  shows "\<exists>rest. events_upto n = event_packet 0 # rest \<and> (\<forall>x \<in> set rest. seq x \<noteq> 0)"
proof -
  from assms(1) obtain n' where n': "n = Suc n'" by (cases n) auto
  let ?rest = "map (\<lambda>k. event_packet (of_nat (Suc k))) [0..<n']"
  have "seq x \<noteq> 0" if "x \<in> set ?rest" for x
  proof -
    from that obtain k where k: "k < n'" "x = event_packet (of_nat (Suc k))" by auto
    have "(of_nat (Suc k) :: u32) \<noteq> of_nat 0"
      using of_nat_eq32 [of "Suc k" 0] k(1) assms(2) n' by auto
    then show ?thesis using k(2) by (simp add: seq_event_packet)
  qed
  then show ?thesis
    unfolding n' events_upto_Suc by blast
qed

lemma events_upto_seq_below:
  assumes "n < 2 ^ 32" "x \<in> set (events_upto n)"
  shows "seq x \<noteq> of_nat n"
proof -
  from events_upto_set [OF assms(2)] obtain k where k: "k < n" "x = event_packet (of_nat k)"
    by auto
  have "(of_nat k :: u32) \<noteq> of_nat n"
    using of_nat_eq32 [of k n] k(1) assms(1) by auto
  then show ?thesis using k(2) by (simp add: seq_event_packet)
qed

text \<open>
  C1. The store does not write at slot \<open>write_cursor mod C\<close> once the cursor has reached the
  capacity. With the region size the firmware is built with, 161319 records fill the
  region; the next record is copied to byte offset 2097147, so that its last eight bytes
  lie past the end of the region, and slot 0 keeps the oldest record. The record just
  stored (sequence 161319) is not found, and the record that should have been evicted
  (sequence 0) is.
\<close>

theorem store_after_wrap_misses_slot:
  "vault_memory_find_by_seq VAULT_HISTORY_BUFFER_SIZE
     (store_all VAULT_HISTORY_BUFFER_SIZE (Some fresh_handle)
        (events_upto 161319 @ [event_packet 161319]))
     161319 (Some blank_packet) = (False, Some blank_packet)
   \<and> vault_memory_find_by_seq VAULT_HISTORY_BUFFER_SIZE
     (store_all VAULT_HISTORY_BUFFER_SIZE (Some fresh_handle)
        (events_upto 161319 @ [event_packet 161319]))
     0 (Some blank_packet) = (True, Some (event_packet 0))
   \<and> history_byte
     (store_all VAULT_HISTORY_BUFFER_SIZE (Some fresh_handle)
        (events_upto 161319 @ [event_packet 161319])) 2097147 = Some 0xAA
   \<and> \<not> 2097147 + 13 \<le> unat VAULT_HISTORY_BUFFER_SIZE"
proof -
  from wrapped_store obtain m where m:
    "store_all VAULT_HISTORY_BUFFER_SIZE (Some fresh_handle)
       (events_upto 161319 @ [event_packet 161319]) = Some m"
    "initialized m"
    "scanned VAULT_HISTORY_BUFFER_SIZE m = rotate1 (events_upto 161319)"
    "history_buffer m 2097147 = 0xAA"
    by blast
  have "\<forall>x \<in> set (rotate1 (events_upto 161319)). seq x \<noteq> 161319"
    using events_upto_seq_below [of 161319] by simp
  then have a: "List.find (\<lambda>p. seq p = 161319) (rotate1 (events_upto 161319)) = None"
    by (simp add: find_None_iff)
  from events_upto_split [of 161319] obtain rest where rest:
    "events_upto 161319 = event_packet 0 # rest" "\<forall>x \<in> set rest. seq x \<noteq> 0"
    by auto
  have b: "List.find (\<lambda>p. seq p = 0) (rotate1 (events_upto 161319)) = Some (event_packet 0)"
    unfolding rest(1) using rest(2) by (simp add: find_snoc_last seq_event_packet)
  show ?thesis
    unfolding m(1)
    by (simp add: find_by_seq_scanned [OF m(2)] m(3) m(4) a b history_byte_def buffer_size)
qed

theorem store_after_wrap_misses_slot_witness:
  "fst (vault_memory_find_by_seq VAULT_HISTORY_BUFFER_SIZE
     (store_all VAULT_HISTORY_BUFFER_SIZE (Some fresh_handle)
        (events_upto 161319 @ [event_packet 161319]))
     161319 (Some blank_packet)) = False"
  using store_after_wrap_misses_slot by simp

text \<open>
  The same history seen through \<open>get_range\<close>: the loop reads the slots the store did not
  write, so the sequence stored last is not returned and the sequence stored first is.
\<close>

lemma get_range_after_wrap:
  "fst (vault_memory_get_range VAULT_HISTORY_BUFFER_SIZE
     (store_all VAULT_HISTORY_BUFFER_SIZE (Some fresh_handle)
        (events_upto 161319 @ [event_packet 161319]))
     161319 161319 (Some blank_block) 10) = 0
   \<and> fst (vault_memory_get_range VAULT_HISTORY_BUFFER_SIZE
     (store_all VAULT_HISTORY_BUFFER_SIZE (Some fresh_handle)
        (events_upto 161319 @ [event_packet 161319]))
     0 0 (Some blank_block) 10) = 1"
proof -
  from wrapped_store obtain m where m:
    "store_all VAULT_HISTORY_BUFFER_SIZE (Some fresh_handle)
       (events_upto 161319 @ [event_packet 161319]) = Some m"
    "initialized m"
    "scanned VAULT_HISTORY_BUFFER_SIZE m = rotate1 (events_upto 161319)"
    by blast
  have "\<forall>x \<in> set (rotate1 (events_upto 161319)). seq x \<noteq> 161319"
    using events_upto_seq_below [of 161319] by simp
  then have a: "filter (in_range 161319 161319) (rotate1 (events_upto 161319)) = []"
    by (auto simp add: filter_empty_conv in_range_def)
  from events_upto_split [of 161319] obtain rest where rest:
    "events_upto 161319 = event_packet 0 # rest" "\<forall>x \<in> set rest. seq x \<noteq> 0"
    by auto
  have "filter (in_range 0 0) rest = []"
    using rest(2) by (auto simp add: filter_empty_conv in_range_def)
  then have b: "filter (in_range 0 0) (rotate1 (events_upto 161319)) = [event_packet 0]"
    unfolding rest(1) by (simp add: in_range_def seq_event_packet)
  from get_range_scanned [OF m(2), of VAULT_HISTORY_BUFFER_SIZE 161319 161319 blank_block 10]
  obtain f1 pk1 where r1:
    "vault_memory_get_range VAULT_HISTORY_BUFFER_SIZE (Some m) 161319 161319 (Some blank_block) 10
       = (f1, Some pk1)"
    "array_prefix pk1 (unat f1) = []"
    unfolding m(3) a by auto
  from get_range_scanned [OF m(2), of VAULT_HISTORY_BUFFER_SIZE 0 0 blank_block 10]
  obtain f2 pk2 where r2:
    "vault_memory_get_range VAULT_HISTORY_BUFFER_SIZE (Some m) 0 0 (Some blank_block) 10
       = (f2, Some pk2)"
    "array_prefix pk2 (unat f2) = [event_packet 0]"
    unfolding m(3) b by auto
  have "unat f1 = 0" using r1(2) array_prefix_length [of pk1 "unat f1"] by simp
  then have f1: "f1 = 0" by (simp add: unat_eq_0)
  have "unat f2 = 1" using r2(2) array_prefix_length [of pk2 "unat f2"] by simp
  then have "of_nat (unat f2) = (of_nat 1 :: u32)" by (simp only:)
  then have f2: "f2 = 1" by simp
  show ?thesis unfolding m(1) by (simp add: r1(1) r2(1) f1 f2)
qed




section \<open>Replay\<close>

lemma publish_event_connected:
  "mqtt_initialized q \<Longrightarrow> connected q \<Longrightarrow>
   snd (vault_mqtt_publish_event msg_ids (Some q) (Some p)) =
     Some (q\<lparr>client := client q @ [(VAULT_MQTT_TOPIC_EVENT, vault_protocol_serialize p)]\<rparr>)"
  by (simp add: vault_mqtt_publish_event_def Let_def)

lemma replay_loop_publishes:
  "i \<le> count \<Longrightarrow> mqtt_initialized q \<Longrightarrow> connected q \<Longrightarrow>
   fst (replay_loop crc8_table msg_ids (Some q) pk count i) =
     Some (q\<lparr>client := client q @
              map (\<lambda>k. (VAULT_MQTT_TOPIC_EVENT, vault_protocol_serialize (restamp crc8_table (pk k))))
                [unat i..<unat count]\<rparr>)"
proof (induction "unat count - unat i" arbitrary: i q pk)
  case 0
  then have "i = count" by unat_arith
  then show ?case by (simp add: replay_loop.simps)
next
  case (Suc d)
  then have lt: "i < count" by unat_arith
  have ui: "unat (i + 1) = Suc (unat i)" using lt by (rule unat_succ_less)
  have le1: "i + 1 \<le> count" using lt by unat_arith
  have d: "d = unat count - unat (i + 1)" using Suc.hyps(2) ui by simp
  have "unat i < unat count" using lt by (simp add: word_less_nat_alt)
  then have slots: "[unat i..<unat count] = unat i # [unat (i + 1)..<unat count]"
    by (simp add: ui upt_conv_Cons)
  let ?p2 = "restamp crc8_table (pk (unat i))"
  let ?q' = "q\<lparr>client := client q @ [(VAULT_MQTT_TOPIC_EVENT, vault_protocol_serialize ?p2)]\<rparr>"
  let ?pk' = "pk(unat i := ?p2)"
  have step: "replay_loop crc8_table msg_ids (Some q) pk count i =
              replay_loop crc8_table msg_ids (Some ?q') ?pk' count (i + 1)"
    using lt Suc.prems
    by (simp add: replay_loop.simps [of _ _ _ _ count i] Let_def publish_event_connected restamp_def)
  have rest: "map (\<lambda>k. (VAULT_MQTT_TOPIC_EVENT, vault_protocol_serialize (restamp crc8_table (?pk' k))))
                [unat (i + 1)..<unat count] =
              map (\<lambda>k. (VAULT_MQTT_TOPIC_EVENT, vault_protocol_serialize (restamp crc8_table (pk k))))
                [unat (i + 1)..<unat count]"
    by (rule map_cong) (simp_all add: ui)
  have "fst (replay_loop crc8_table msg_ids (Some ?q') ?pk' count (i + 1)) =
        Some (?q'\<lparr>client := client ?q' @
              map (\<lambda>k. (VAULT_MQTT_TOPIC_EVENT, vault_protocol_serialize (restamp crc8_table (?pk' k))))
                [unat (i + 1)..<unat count]\<rparr>)"
    by (rule Suc.hyps(1) [OF d le1]) (simp_all add: Suc.prems)
  then have "fst (replay_loop crc8_table msg_ids (Some ?q') ?pk' count (i + 1)) =
        Some (?q'\<lparr>client := client ?q' @
              map (\<lambda>k. (VAULT_MQTT_TOPIC_EVENT, vault_protocol_serialize (restamp crc8_table (pk k))))
                [unat (i + 1)..<unat count]\<rparr>)"
    by (simp only: rest)
  then show ?case
    by (simp add: step slots del: upt_Suc)
qed

lemma handle_replay_idle:
  "\<not> mqtt_initialized q \<or> \<not> connected q \<or> malloc_result = None \<or> memory q = None
     \<or> (\<exists>m. memory q = Some m \<and> \<not> initialized m) \<Longrightarrow>
   vault_mqtt_handle_replay crc8_table bsz malloc_result msg_ids (Some q) a b = (0, Some q)"
  by (auto simp add: vault_mqtt_handle_replay_def vault_memory_get_range_def replay_loop.simps
      split: option.splits)

lemma handle_replay_active:
  assumes "mqtt_initialized q" "connected q" "malloc_result = Some block"
    "memory q = Some m" "initialized m"
  shows "vault_mqtt_handle_replay crc8_table bsz malloc_result msg_ids (Some q) a b =
     (of_nat (length (take 100 (filter (in_range a b) (scanned bsz m)))),
      Some (q\<lparr>client := client q @
              map (\<lambda>p. (VAULT_MQTT_TOPIC_EVENT, vault_protocol_serialize (restamp crc8_table p)))
                (take 100 (filter (in_range a b) (scanned bsz m)))\<rparr>))"
proof -
  let ?T = "take 100 (filter (in_range a b) (scanned bsz m))"
  from get_range_scanned [OF assms(5), of bsz a b block 100]
  obtain found pk' where g:
    "vault_memory_get_range bsz (Some m) a b (Some block) 100 = (found, Some pk')"
    "array_prefix pk' (unat found) = ?T"
    by auto
  have len: "unat found = length ?T"
    using g(2) array_prefix_length [of pk' "unat found"] by simp
  have "found = of_nat (unat found)" by simp
  then have f: "found = of_nat (length ?T)"
    by (simp only: len)
  have "fst (replay_loop crc8_table msg_ids (Some q) pk' found 0) =
     Some (q\<lparr>client := client q @
              map (\<lambda>k. (VAULT_MQTT_TOPIC_EVENT, vault_protocol_serialize (restamp crc8_table (pk' k))))
                [unat (0 :: u32)..<unat found]\<rparr>)"
    by (rule replay_loop_publishes) (simp_all add: assms)
  moreover have "map (\<lambda>k. (VAULT_MQTT_TOPIC_EVENT, vault_protocol_serialize (restamp crc8_table (pk' k))))
                [unat (0 :: u32)..<unat found] =
        map (\<lambda>p. (VAULT_MQTT_TOPIC_EVENT, vault_protocol_serialize (restamp crc8_table p))) ?T"
    using g(2) [symmetric] by (simp add: array_prefix_def comp_def)
  ultimately show ?thesis
    using assms g(1) f by (simp add: vault_mqtt_handle_replay_def)
qed

lemma restamp_flag: "flags (restamp crc8_table p) AND VAULT_FLAG_IS_REPLAY = VAULT_FLAG_IS_REPLAY"
  by (simp add: restamp_def vault_protocol_finalize_packet_def VAULT_FLAG_IS_REPLAY_def
      and.commute)

lemma restamp_checksum:
  "crc (restamp crc8_table p) =
   vault_protocol_calc_crc8 crc8_table (take 12 (vault_protocol_serialize (restamp crc8_table p)))"
  by (simp add: restamp_def vault_protocol_finalize_packet_def vault_protocol_serialize_def)

lemma handle_replay_shape:
  "\<exists>T. length T \<le> 100 \<and>
     vault_mqtt_handle_replay crc8_table bsz malloc_result msg_ids (Some q) a b =
       (of_nat (length T),
        Some (q\<lparr>client := client q @
          map (\<lambda>p. (VAULT_MQTT_TOPIC_EVENT, vault_protocol_serialize (restamp crc8_table p))) T\<rparr>))"
proof (cases "mqtt_initialized q \<and> connected q \<and> malloc_result \<noteq> None
     \<and> (\<exists>m. memory q = Some m \<and> initialized m)")
  case True
  then obtain block m where "mqtt_initialized q" "connected q" "malloc_result = Some block"
    "memory q = Some m" "initialized m" by auto
  from handle_replay_active [OF this] show ?thesis
    by (intro exI [of _ "take 100 (filter (in_range a b) (scanned bsz m))"]) simp
next
  case False
  then have "vault_mqtt_handle_replay crc8_table bsz malloc_result msg_ids (Some q) a b = (0, Some q)"
    by (intro handle_replay_idle) auto
  then show ?thesis by (intro exI [of _ "[]"]) simp
qed

lemma replay_before_wrap:
  assumes "mqtt_initialized q" "connected q" "memory q = store_all bsz (Some m0) ps"
    and "initialized m0" "history_write_pos m0 = 0" "history_count m0 = 0"
    and "length ps \<le> unat bsz div 13"
  shows "vault_mqtt_handle_replay crc8_table bsz (Some block) msg_ids (Some q) a b =
     (of_nat (length (take 100 (filter (in_range a b) ps))),
      Some (q\<lparr>client := client q @
              map (\<lambda>p. (VAULT_MQTT_TOPIC_EVENT, vault_protocol_serialize (restamp crc8_table p)))
                (take 100 (filter (in_range a b) ps))\<rparr>))"
proof -
  from store_all_before_wrap [OF assms(4-6) assms(7)]
  obtain m where m: "store_all bsz (Some m0) ps = Some m" by blast
  from scanned_before_wrap [OF assms(4-7) m]
  have s: "initialized m" "scanned bsz m = ps" by simp_all
  have mq: "memory q = Some m" using assms(3) m by simp
  from handle_replay_active [OF assms(1,2) refl mq s(1), of crc8_table bsz block msg_ids a b]
  show ?thesis by (simp add: s(2))
qed

lemma seq_restamp: "seq (restamp crc8_table p) = seq p"
  by (simp add: restamp_def vault_protocol_finalize_packet_def)

lemma two_fit: "length [x, y] \<le> unat VAULT_HISTORY_BUFFER_SIZE div 13"
  by (simp add: buffer_size)

lemma restamp_event_2:
  "vault_protocol_serialize (restamp stand_in_table (event_packet 2)) =
     [170, 2, 2, 0, 0, 0, 5, 3, 232, 3, 0, 0, 43]"
  by (simp add: restamp_def event_packet_def vault_protocol_finalize_packet_def
      vault_protocol_init_packet_def vault_protocol_serialize_def vault_protocol_calc_crc8_def
      stand_in_table_def VAULT_PROTO_HEAD_def VAULT_CMD_EVENT_def VAULT_FLAG_INPUT_STATE_def
      VAULT_FLAG_IS_REPLAY_def)

lemma restamp_event_1:
  "vault_protocol_serialize (restamp stand_in_table (event_packet 1)) =
     [170, 2, 1, 0, 0, 0, 5, 3, 232, 3, 0, 0, 112]"
  by (simp add: restamp_def event_packet_def vault_protocol_finalize_packet_def
      vault_protocol_init_packet_def vault_protocol_serialize_def vault_protocol_calc_crc8_def
      stand_in_table_def VAULT_PROTO_HEAD_def VAULT_CMD_EVENT_def VAULT_FLAG_INPUT_STATE_def
      VAULT_FLAG_IS_REPLAY_def)



lemma events_upto_in_range:
  assumes "n \<le> 201"
  shows "filter (in_range 0 200) (events_upto n) = events_upto n"
proof -
  have "in_range 0 200 x" if "x \<in> set (events_upto n)" for x
  proof -
    from events_upto_set [OF that] obtain k where k: "k < n" "x = event_packet (of_nat k)"
      by auto
    have "k \<le> 200" using k(1) assms by simp
    then have "unat (of_nat k :: u32) \<le> 200" by (simp add: unat_of_nat)
    then show ?thesis
      by (simp add: in_range_def k(2) seq_event_packet word_le_nat_alt)
  qed
  then show ?thesis by (simp add: filter_id_conv)
qed

lemma hundred_and_one_fit: "length (events_upto 101) \<le> unat VAULT_HISTORY_BUFFER_SIZE div 13"
  by (simp add: events_upto_length buffer_size)

text \<open>
  C6. A replay returns a count of at most 100, makes one publish call per counted record,
  and every record it publishes carries the replay flag and a checksum that matches its
  first twelve bytes. On a connected client over an initialised memory handle the records
  published are the first 100 of the window that lie in the range, restamped; when more
  than 100 lie in the range the count is exactly 100.
\<close>

theorem replay_bounded_and_stamped:
  "vault_mqtt_handle_replay crc8_table bsz malloc_result msg_ids (Some q) seq_start seq_end
     = (count, mqtt') \<Longrightarrow>
   unat count \<le> 100 \<and>
   (\<exists>q' ps. mqtt' = Some q' \<and> length ps = unat count \<and>
      client q' = client q @ map (\<lambda>p. (VAULT_MQTT_TOPIC_EVENT, vault_protocol_serialize p)) ps \<and>
      (\<forall>p \<in> set ps. flags p AND VAULT_FLAG_IS_REPLAY = VAULT_FLAG_IS_REPLAY \<and>
         crc p = vault_protocol_calc_crc8 crc8_table (take 12 (vault_protocol_serialize p))) \<and>
      (mqtt_initialized q \<and> connected q \<and> malloc_result \<noteq> None \<and> memory q = Some m
         \<and> initialized m \<longrightarrow>
       ps = map (restamp crc8_table)
              (take 100 (filter (in_range seq_start seq_end) (scanned bsz m))))) \<and>
   (mqtt_initialized q \<and> connected q \<and> malloc_result \<noteq> None \<and> memory q = Some m
      \<and> initialized m \<and> 100 < length (filter (in_range seq_start seq_end) (scanned bsz m)) \<longrightarrow>
    count = 100)"
proof -
  assume h: "vault_mqtt_handle_replay crc8_table bsz malloc_result msg_ids (Some q) seq_start seq_end
     = (count, mqtt')"
  let ?active = "mqtt_initialized q \<and> connected q \<and> malloc_result \<noteq> None \<and> memory q = Some m
         \<and> initialized m"
  let ?W = "take 100 (filter (in_range seq_start seq_end) (scanned bsz m))"
  have stamped: "\<forall>p \<in> set (map (restamp crc8_table) T).
         flags p AND VAULT_FLAG_IS_REPLAY = VAULT_FLAG_IS_REPLAY \<and>
         crc p = vault_protocol_calc_crc8 crc8_table (take 12 (vault_protocol_serialize p))" for T
    using restamp_flag restamp_checksum by auto
  have shape: "\<exists>T. length T \<le> 100 \<and> (?active \<longrightarrow> T = ?W) \<and>
     vault_mqtt_handle_replay crc8_table bsz malloc_result msg_ids (Some q) seq_start seq_end =
       (of_nat (length T),
        Some (q\<lparr>client := client q @
          map (\<lambda>p. (VAULT_MQTT_TOPIC_EVENT, vault_protocol_serialize (restamp crc8_table p))) T\<rparr>))"
  proof (cases ?active)
    case True
    then obtain block where c: "mqtt_initialized q" "connected q" "malloc_result = Some block"
      "memory q = Some m" "initialized m" by auto
    from handle_replay_active [OF c, of crc8_table bsz msg_ids seq_start seq_end]
    show ?thesis by (intro exI [of _ ?W]) simp
  next
    case False
    from handle_replay_shape [of crc8_table bsz malloc_result msg_ids q seq_start seq_end]
    show ?thesis using False by blast
  qed
  then obtain T where T: "length T \<le> 100" "?active \<longrightarrow> T = ?W"
    "vault_mqtt_handle_replay crc8_table bsz malloc_result msg_ids (Some q) seq_start seq_end =
       (of_nat (length T),
        Some (q\<lparr>client := client q @
          map (\<lambda>p. (VAULT_MQTT_TOPIC_EVENT, vault_protocol_serialize (restamp crc8_table p))) T\<rparr>))"
    by blast
  let ?q' = "q\<lparr>client := client q @
          map (\<lambda>p. (VAULT_MQTT_TOPIC_EVENT, vault_protocol_serialize (restamp crc8_table p))) T\<rparr>"
  have c: "count = of_nat (length T)" "mqtt' = Some ?q'"
    using h T(3) by simp_all
  have uc: "unat count = length T"
    using T(1) by (simp add: c(1) unat_of_nat)
  have cl: "client ?q' =
        client q @ map (\<lambda>p. (VAULT_MQTT_TOPIC_EVENT, vault_protocol_serialize p)) (map (restamp crc8_table) T)"
    by (simp add: comp_def)
  have part2: "\<exists>q' ps. mqtt' = Some q' \<and> length ps = unat count \<and>
      client q' = client q @ map (\<lambda>p. (VAULT_MQTT_TOPIC_EVENT, vault_protocol_serialize p)) ps \<and>
      (\<forall>p \<in> set ps. flags p AND VAULT_FLAG_IS_REPLAY = VAULT_FLAG_IS_REPLAY \<and>
         crc p = vault_protocol_calc_crc8 crc8_table (take 12 (vault_protocol_serialize p))) \<and>
      (?active \<longrightarrow> ps = map (restamp crc8_table) ?W)"
    apply (rule exI [of _ ?q'])
    apply (rule exI [of _ "map (restamp crc8_table) T"])
    using c(2) uc cl stamped [of T] T(2) by simp
  have part3: "count = 100"
    if "?active \<and> 100 < length (filter (in_range seq_start seq_end) (scanned bsz m))"
  proof -
    from that T(2) have "length T = 100" by simp
    then show ?thesis by (simp add: c(1))
  qed
  show ?thesis
    using uc T(1) part2 part3 by simp
qed

theorem replay_bounded_and_stamped_witness:
  "\<exists>m. memory (connected_client
            (store_all VAULT_HISTORY_BUFFER_SIZE (Some fresh_handle) (events_upto 101))) = Some m
     \<and> initialized m
     \<and> 100 < length (filter (in_range 0 200) (scanned VAULT_HISTORY_BUFFER_SIZE m))
     \<and> fst (vault_mqtt_handle_replay stand_in_table VAULT_HISTORY_BUFFER_SIZE (Some blank_block)
              accepting
              (Some (connected_client
                 (store_all VAULT_HISTORY_BUFFER_SIZE (Some fresh_handle) (events_upto 101))))
              0 200) = 100
     \<and> (\<exists>q' ps.
          snd (vault_mqtt_handle_replay stand_in_table VAULT_HISTORY_BUFFER_SIZE (Some blank_block)
              accepting
              (Some (connected_client
                 (store_all VAULT_HISTORY_BUFFER_SIZE (Some fresh_handle) (events_upto 101))))
              0 200) = Some q'
          \<and> length ps = 100
          \<and> client q' = map (\<lambda>p. (VAULT_MQTT_TOPIC_EVENT, vault_protocol_serialize p)) ps
          \<and> ps = map (restamp stand_in_table) (take 100 (events_upto 101))
          \<and> (\<forall>p \<in> set ps. flags p AND VAULT_FLAG_IS_REPLAY = VAULT_FLAG_IS_REPLAY \<and>
               crc p = vault_protocol_calc_crc8 stand_in_table
                         (take 12 (vault_protocol_serialize p))))"
proof -
  let ?Q = "connected_client
              (store_all VAULT_HISTORY_BUFFER_SIZE (Some fresh_handle) (events_upto 101))"
  let ?H = "vault_mqtt_handle_replay stand_in_table VAULT_HISTORY_BUFFER_SIZE (Some blank_block)
              accepting (Some ?Q) 0 200"
  from store_all_before_wrap [OF fresh_handle_facts hundred_and_one_fit]
  obtain m where m: "store_all VAULT_HISTORY_BUFFER_SIZE (Some fresh_handle) (events_upto 101)
                       = Some m" by blast
  from scanned_before_wrap [OF fresh_handle_facts hundred_and_one_fit m]
  have s: "initialized m" "scanned VAULT_HISTORY_BUFFER_SIZE m = events_upto 101"
    by simp_all
  have f: "filter (in_range 0 200) (scanned VAULT_HISTORY_BUFFER_SIZE m) = events_upto 101"
    unfolding s(2) by (rule events_upto_in_range) simp
  have big: "100 < length (filter (in_range 0 200) (scanned VAULT_HISTORY_BUFFER_SIZE m))"
    unfolding f by (simp add: events_upto_length)
  have q: "mqtt_initialized ?Q" "connected ?Q" "memory ?Q = Some m" "client ?Q = []"
    using m by (simp_all add: connected_client_def)
  have act: "mqtt_initialized ?Q \<and> connected ?Q \<and> Some blank_block \<noteq> None \<and> memory ?Q = Some m
      \<and> initialized m"
    using q s(1) by simp
  have hyp: "?H = (fst ?H, snd ?H)" by simp
  note r = replay_bounded_and_stamped [OF hyp, of m]
  from r have cnt: "fst ?H = 100" using act big by blast
  from r obtain q' ps where p:
    "snd ?H = Some q'" "length ps = unat (fst ?H)"
    "client q' = client ?Q @ map (\<lambda>p. (VAULT_MQTT_TOPIC_EVENT, vault_protocol_serialize p)) ps"
    "\<forall>p \<in> set ps. flags p AND VAULT_FLAG_IS_REPLAY = VAULT_FLAG_IS_REPLAY \<and>
         crc p = vault_protocol_calc_crc8 stand_in_table (take 12 (vault_protocol_serialize p))"
    "ps = map (restamp stand_in_table)
              (take 100 (filter (in_range 0 200) (scanned VAULT_HISTORY_BUFFER_SIZE m)))"
    using act by blast
  have l: "length ps = 100" using p(2) cnt by simp
  have c: "client q' = map (\<lambda>p. (VAULT_MQTT_TOPIC_EVENT, vault_protocol_serialize p)) ps"
    using p(3) q(4) by simp
  have e: "ps = map (restamp stand_in_table) (take 100 (events_upto 101))"
    using p(5) unfolding f .
  have inner: "\<exists>q' ps. snd ?H = Some q' \<and> length ps = 100
          \<and> client q' = map (\<lambda>p. (VAULT_MQTT_TOPIC_EVENT, vault_protocol_serialize p)) ps
          \<and> ps = map (restamp stand_in_table) (take 100 (events_upto 101))
          \<and> (\<forall>p \<in> set ps. flags p AND VAULT_FLAG_IS_REPLAY = VAULT_FLAG_IS_REPLAY \<and>
               crc p = vault_protocol_calc_crc8 stand_in_table
                         (take 12 (vault_protocol_serialize p)))"
    using p(1) l c e p(4) by blast
  show ?thesis
    by (rule exI [of _ m]) (intro conjI q(3) s(1) big cnt inner)
qed

text \<open>
  C7, as the spec states it, fails: nothing in the replay path sorts. Records stored with
  sequence 2 and then sequence 1 are published in that order.
\<close>

theorem replay_order_counterexample:
  "map_option client
     (snd (vault_mqtt_handle_replay stand_in_table VAULT_HISTORY_BUFFER_SIZE (Some blank_block)
        accepting
        (Some (connected_client
           (store_all VAULT_HISTORY_BUFFER_SIZE (Some fresh_handle)
              [event_packet 2, event_packet 1]))) 1 2)) =
   Some [(''vault/event'', [170, 2, 2, 0, 0, 0, 5, 3, 232, 3, 0, 0, 43]),
         (''vault/event'', [170, 2, 1, 0, 0, 0, 5, 3, 232, 3, 0, 0, 112])]
   \<and> seq (restamp stand_in_table (event_packet 2)) = 2
   \<and> seq (restamp stand_in_table (event_packet 1)) = 1"
proof -
  have q: "mqtt_initialized (connected_client (store_all VAULT_HISTORY_BUFFER_SIZE (Some fresh_handle)
              [event_packet 2, event_packet 1]))"
    "connected (connected_client (store_all VAULT_HISTORY_BUFFER_SIZE (Some fresh_handle)
              [event_packet 2, event_packet 1]))"
    "memory (connected_client (store_all VAULT_HISTORY_BUFFER_SIZE (Some fresh_handle)
              [event_packet 2, event_packet 1])) =
     store_all VAULT_HISTORY_BUFFER_SIZE (Some fresh_handle) [event_packet 2, event_packet 1]"
    by (simp_all add: connected_client_def)
  have f: "filter (in_range 1 2) [event_packet 2, event_packet 1] = [event_packet 2, event_packet 1]"
    by (simp add: in_range_def seq_event_packet word_le_nat_alt)
  show ?thesis
    unfolding replay_before_wrap [OF q fresh_handle_facts two_fit] f
    by (simp add: restamp_event_1 restamp_event_2 seq_restamp seq_event_packet
        VAULT_MQTT_TOPIC_EVENT_def connected_client_def)
qed

text \<open>
  C7, amended. On a history that has not wrapped, the records selected for replay are
  published in the order in which they were stored; the published sequences ascend when
  the stored ones do.
\<close>

theorem replay_in_stored_order:
  "mqtt_initialized q \<Longrightarrow> connected q \<Longrightarrow> memory q = store_all bsz (Some m0) ps \<Longrightarrow>
   initialized m0 \<Longrightarrow> history_write_pos m0 = 0 \<Longrightarrow> history_count m0 = 0 \<Longrightarrow>
   length ps \<le> unat bsz div 13 \<Longrightarrow>
   snd (vault_mqtt_handle_replay crc8_table bsz (Some block) msg_ids (Some q) seq_start seq_end) =
     Some (q\<lparr>client := client q @
       map (\<lambda>p. (VAULT_MQTT_TOPIC_EVENT, vault_protocol_serialize (restamp crc8_table p)))
         (take 100 (filter (in_range seq_start seq_end) ps))\<rparr>)
   \<and> (sorted_wrt (\<lambda>x y. seq x < seq y) ps \<longrightarrow>
        sorted_wrt (\<lambda>x y. seq x < seq y)
          (map (restamp crc8_table) (take 100 (filter (in_range seq_start seq_end) ps))))"
proof -
  assume a: "mqtt_initialized q" "connected q" "memory q = store_all bsz (Some m0) ps"
    "initialized m0" "history_write_pos m0 = 0" "history_count m0 = 0"
    "length ps \<le> unat bsz div 13"
  have "sorted_wrt (\<lambda>x y. seq x < seq y)
          (map (restamp crc8_table) (take 100 (filter (in_range seq_start seq_end) ps)))"
    if "sorted_wrt (\<lambda>x y. seq x < seq y) ps"
    using that by (simp add: sorted_wrt_map seq_restamp sorted_wrt_filter)
  then show ?thesis
    using replay_before_wrap [OF a, of crc8_table block msg_ids seq_start seq_end] by simp
qed

theorem replay_in_stored_order_witness:
  "mqtt_initialized (connected_client
      (store_all VAULT_HISTORY_BUFFER_SIZE (Some fresh_handle) [event_packet 1, event_packet 2]))
   \<and> connected (connected_client
      (store_all VAULT_HISTORY_BUFFER_SIZE (Some fresh_handle) [event_packet 1, event_packet 2]))
   \<and> initialized fresh_handle \<and> history_write_pos fresh_handle = 0
   \<and> history_count fresh_handle = 0
   \<and> length [event_packet 1, event_packet 2] \<le> unat VAULT_HISTORY_BUFFER_SIZE div 13
   \<and> sorted_wrt (\<lambda>x y. seq x < seq y) [event_packet 1, event_packet 2]
   \<and> map_option client
       (snd (vault_mqtt_handle_replay stand_in_table VAULT_HISTORY_BUFFER_SIZE (Some blank_block)
          accepting
          (Some (connected_client
             (store_all VAULT_HISTORY_BUFFER_SIZE (Some fresh_handle)
                [event_packet 1, event_packet 2]))) 1 2)) =
     Some [(''vault/event'', [170, 2, 1, 0, 0, 0, 5, 3, 232, 3, 0, 0, 112]),
           (''vault/event'', [170, 2, 2, 0, 0, 0, 5, 3, 232, 3, 0, 0, 43])]"
proof -
  have q: "mqtt_initialized (connected_client (store_all VAULT_HISTORY_BUFFER_SIZE (Some fresh_handle)
              [event_packet 1, event_packet 2]))"
    "connected (connected_client (store_all VAULT_HISTORY_BUFFER_SIZE (Some fresh_handle)
              [event_packet 1, event_packet 2]))"
    "memory (connected_client (store_all VAULT_HISTORY_BUFFER_SIZE (Some fresh_handle)
              [event_packet 1, event_packet 2])) =
     store_all VAULT_HISTORY_BUFFER_SIZE (Some fresh_handle) [event_packet 1, event_packet 2]"
    by (simp_all add: connected_client_def)
  have f: "filter (in_range 1 2) [event_packet 1, event_packet 2] = [event_packet 1, event_packet 2]"
    by (simp add: in_range_def seq_event_packet word_le_nat_alt)
  have s: "sorted_wrt (\<lambda>x y. seq x < seq y) [event_packet 1, event_packet 2]"
    by (simp add: seq_event_packet word_less_nat_alt)
  note r = replay_in_stored_order [OF q fresh_handle_facts two_fit, of stand_in_table blank_block accepting 1 2,
      unfolded f, THEN conjunct1]
  have cl: "map_option client
       (snd (vault_mqtt_handle_replay stand_in_table VAULT_HISTORY_BUFFER_SIZE (Some blank_block)
          accepting
          (Some (connected_client
             (store_all VAULT_HISTORY_BUFFER_SIZE (Some fresh_handle)
                [event_packet 1, event_packet 2]))) 1 2)) =
     Some [(''vault/event'', [170, 2, 1, 0, 0, 0, 5, 3, 232, 3, 0, 0, 112]),
           (''vault/event'', [170, 2, 2, 0, 0, 0, 5, 3, 232, 3, 0, 0, 43])]"
    unfolding r
    by (simp add: restamp_event_1 restamp_event_2 VAULT_MQTT_TOPIC_EVENT_def
        connected_client_def)
  show ?thesis
    by (intro conjI q(1) q(2) fresh_handle_facts two_fit s cl)
qed






text \<open>
  C9. A replay leaves the memory handle, and with it every byte of the history region,
  as it was.
\<close>

theorem replay_leaves_history:
  "map_option memory (snd (vault_mqtt_handle_replay crc8_table bsz malloc_result msg_ids mqtt
      seq_start seq_end)) = map_option memory mqtt"
proof (cases mqtt)
  case None
  then show ?thesis by (simp add: vault_mqtt_handle_replay_def)
next
  case (Some q)
  from handle_replay_shape [of crc8_table bsz malloc_result msg_ids q seq_start seq_end]
  show ?thesis using Some by auto
qed

theorem replay_leaves_history_witness:
  "map_option memory
     (snd (vault_mqtt_handle_replay stand_in_table VAULT_HISTORY_BUFFER_SIZE (Some blank_block)
        accepting
        (Some (connected_client
           (store_all VAULT_HISTORY_BUFFER_SIZE (Some fresh_handle) [event_packet 1]))) 0 10)) =
   Some (store_all VAULT_HISTORY_BUFFER_SIZE (Some fresh_handle) [event_packet 1])"
  using replay_leaves_history [of stand_in_table VAULT_HISTORY_BUFFER_SIZE "Some blank_block" accepting
      "Some (connected_client
           (store_all VAULT_HISTORY_BUFFER_SIZE (Some fresh_handle) [event_packet 1]))" 0 10]
  by (simp add: connected_client_def)

end
